theory Spec2Isabelle
  imports Main "HOL-Library.Word"
begin

unbundle bit_operations_syntax

section \<open>Bytes, host loads and stores, byte order\<close>

text \<open>
  The responder is built for the ESP32 family, whose cores are little-endian and whose
  compilers treat plain \<open>char\<close> as unsigned. A packet buffer is a list of bytes; a
  \<open>uint16_t\<close> or \<open>uint32_t\<close> field of a packed struct laid over the buffer is read and
  written least significant byte first, and \<open>ntohs\<close>, \<open>htons\<close> and \<open>htonl\<close> swap bytes.
\<close>

type_synonym byte = "8 word"

definition load16 :: "byte list \<Rightarrow> nat \<Rightarrow> 16 word" where
  "load16 buf off = ucast (buf ! off) OR push_bit 8 (ucast (buf ! (off + 1)))"

definition store16 :: "byte list \<Rightarrow> nat \<Rightarrow> 16 word \<Rightarrow> byte list" where
  "store16 buf off v = buf[off := ucast v, off + 1 := ucast (drop_bit 8 v)]"

definition store32 :: "byte list \<Rightarrow> nat \<Rightarrow> 32 word \<Rightarrow> byte list" where
  "store32 buf off v =
     buf[off := ucast v, off + 1 := ucast (drop_bit 8 v),
         off + 2 := ucast (drop_bit 16 v), off + 3 := ucast (drop_bit 24 v)]"

definition ntohs :: "16 word \<Rightarrow> 16 word" where
  "ntohs v = push_bit 8 v OR drop_bit 8 v"

definition htons :: "16 word \<Rightarrow> 16 word" where
  "htons v = push_bit 8 v OR drop_bit 8 v"

definition htonl :: "32 word \<Rightarrow> 32 word" where
  "htonl v = push_bit 24 v OR push_bit 8 (v AND 0xFF00)
             OR (drop_bit 8 v AND 0xFF00) OR drop_bit 24 v"

section \<open>Constants of dns\_server.c\<close>

definition DNS_MAX_LEN :: nat where
  "DNS_MAX_LEN = 256"

definition OPCODE_MASK :: "16 word" where
  "OPCODE_MASK = 0x7800"

definition QR_FLAG :: "16 word" where
  "QR_FLAG = push_bit 7 1"

definition QD_TYPE_A :: "16 word" where
  "QD_TYPE_A = 0x0001"

definition ANS_TTL_SEC :: "32 word" where
  "ANS_TTL_SEC = 300"

definition IPADDR_ANY :: "32 word" where
  "IPADDR_ANY = 0"

text \<open>Sizes and field offsets of the packed structs \<open>dns_header_t\<close> and \<open>dns_answer_t\<close>.\<close>

definition sizeof_dns_header :: nat where
  "sizeof_dns_header = 12"

definition sizeof_dns_answer :: nat where
  "sizeof_dns_answer = 16"

section \<open>Rules\<close>

record dns_entry_pair =
  name :: string
  if_key :: "string option"
  ip :: "32 word"

text \<open>
  C strings: the bytes before the first NUL. \<open>strcmp(a, b) == 0\<close> holds exactly when both
  arguments agree up to and including their terminators.
\<close>

definition c_str :: "byte list \<Rightarrow> byte list" where
  "c_str bs = takeWhile (\<lambda>b. b \<noteq> 0) bs"

definition str_bytes :: "string \<Rightarrow> byte list" where
  "str_bytes s = map of_char s"

definition strcmp_eq :: "string \<Rightarrow> byte list \<Rightarrow> bool" where
  "strcmp_eq s bs \<longleftrightarrow> c_str (str_bytes s) = c_str bs"

section \<open>parse\_dns\_name\<close>

text \<open>
  The do-while loop of \<open>parse_dns_name\<close>. \<open>label\<close> is the offset of the current length
  byte in the buffer, \<open>parsed\<close> the bytes written to the name buffer so far and \<open>name_len\<close>
  their number. The result is the name buffer with the last dot replaced by NUL, and the
  offset of the first byte after the name; \<open>None\<close> is the \<open>NULL\<close> return.
\<close>

function parse_dns_name_loop ::
  "byte list \<Rightarrow> nat \<Rightarrow> nat \<Rightarrow> byte list \<Rightarrow> nat \<Rightarrow> (byte list \<times> nat) option" where
  "parse_dns_name_loop buf parsed_name_max_len label parsed name_len =
     (let sub_name_len = unat (buf ! label);
          name_len' = name_len + (sub_name_len + 1)
      in if name_len' > parsed_name_max_len then None
         else
           let parsed' = parsed @ take sub_name_len (drop (label + 1) buf) @ [0x2E];
               label' = label + sub_name_len + 1
           in if buf ! label' \<noteq> 0
              then parse_dns_name_loop buf parsed_name_max_len label' parsed' name_len'
              else Some (parsed'[name_len' - 1 := 0], label' + 1))"
  by pat_completeness auto
termination
  by (relation "measure (\<lambda>(buf, m, label, parsed, name_len). m - name_len)") auto

definition parse_dns_name :: "byte list \<Rightarrow> nat \<Rightarrow> nat \<Rightarrow> (byte list \<times> nat) option" where
  "parse_dns_name buf raw_name parsed_name_max_len =
     parse_dns_name_loop buf parsed_name_max_len raw_name [] 0"

section \<open>parse\_dns\_request\<close>

text \<open>
  The rule loop of \<open>parse_dns_request\<close>. \<open>netif k\<close> is the current address of the
  interface with key \<open>k\<close>, as \<open>esp_netif_get_ip_info\<close> reports it. \<open>h\<close> is the whole entry
  array (the static branch tests \<open>h->entry->ip.addr\<close>, the address of entry 0), \<open>es\<close> the
  entries from index \<open>i\<close> on. The result is \<open>ip.addr\<close> after the loop.
\<close>

fun find_rule :: "(string \<Rightarrow> 32 word) \<Rightarrow> dns_entry_pair list \<Rightarrow> dns_entry_pair list
                  \<Rightarrow> byte list \<Rightarrow> 32 word" where
  "find_rule netif h [] nm = IPADDR_ANY"
| "find_rule netif h (e # es) nm =
     (if strcmp_eq (name e) (str_bytes ''*'') \<or> strcmp_eq (name e) nm
      then (case if_key e of
              Some k \<Rightarrow> netif k
            | None \<Rightarrow> if ip (hd h) \<noteq> IPADDR_ANY then ip e
                      else find_rule netif h es nm)
      else find_rule netif h es nm)"

text \<open>Building one \<open>dns_answer_t\<close> at \<open>cur_ans_ptr\<close>, field by field as the source does.\<close>

definition build_answer ::
  "byte list \<Rightarrow> nat \<Rightarrow> nat \<Rightarrow> 16 word \<Rightarrow> 16 word \<Rightarrow> 32 word \<Rightarrow> byte list" where
  "build_answer buf cur_ans_ptr cur_qd_ptr qd_type qd_class addr =
     (let b1 = store16 buf cur_ans_ptr (htons (0xC000 OR of_nat cur_qd_ptr));
          b2 = store16 b1 (cur_ans_ptr + 2) (htons qd_type);
          b3 = store16 b2 (cur_ans_ptr + 4) (htons qd_class);
          b4 = store32 b3 (cur_ans_ptr + 6) (htonl ANS_TTL_SEC);
          b5 = store16 b4 (cur_ans_ptr + 10) (htons 4)
      in store32 b5 (cur_ans_ptr + 12) addr)"

text \<open>
  The question loop, \<open>n\<close> iterations left. Neither \<open>cur_ans_ptr\<close> nor \<open>cur_qd_ptr\<close> is
  assigned in the loop body of the source, so both are fixed arguments here.
  \<open>Inl\<close> is the early \<open>return -1\<close>, \<open>Inr\<close> the buffer when the loop is done.
\<close>

fun question_loop :: "(string \<Rightarrow> 32 word) \<Rightarrow> dns_entry_pair list \<Rightarrow> nat \<Rightarrow> nat \<Rightarrow> nat
                      \<Rightarrow> byte list \<Rightarrow> byte list + byte list" where
  "question_loop netif h cur_ans_ptr cur_qd_ptr 0 buf = Inr buf"
| "question_loop netif h cur_ans_ptr cur_qd_ptr (Suc n) buf =
     (case parse_dns_name buf cur_qd_ptr 128 of
        None \<Rightarrow> Inl buf
      | Some (nm, name_end_ptr) \<Rightarrow>
          let qd_type = ntohs (load16 buf name_end_ptr);
              qd_class = ntohs (load16 buf (name_end_ptr + 2))
          in if qd_type = QD_TYPE_A
             then let addr = find_rule netif h h nm
                  in if addr = IPADDR_ANY
                     then question_loop netif h cur_ans_ptr cur_qd_ptr n buf
                     else question_loop netif h cur_ans_ptr cur_qd_ptr n
                            (build_answer buf cur_ans_ptr cur_qd_ptr qd_type qd_class addr)
             else question_loop netif h cur_ans_ptr cur_qd_ptr n buf)"

text \<open>
  \<open>parse_dns_request\<close>: the request \<open>req\<close> (its length is \<open>req_len\<close>), the reply buffer as
  the caller hands it over, and its capacity. The result is the returned \<open>int\<close> and the
  reply buffer on return.
\<close>

definition parse_dns_request ::
  "(string \<Rightarrow> 32 word) \<Rightarrow> dns_entry_pair list \<Rightarrow> byte list \<Rightarrow> byte list \<Rightarrow> nat
   \<Rightarrow> int \<times> byte list" where
  "parse_dns_request netif h req dns_reply dns_reply_max_len =
     (let req_len = length req
      in if req_len > dns_reply_max_len then (- 1, dns_reply)
         else
           let r0 = replicate dns_reply_max_len 0 @ drop dns_reply_max_len dns_reply;
               r1 = req @ drop req_len r0
           in if load16 r1 2 AND OPCODE_MASK \<noteq> 0 then (0, r1)
              else
                let r2 = store16 r1 2 (load16 r1 2 OR QR_FLAG);
                    qd_count = ntohs (load16 r2 4);
                    r3 = store16 r2 6 (htons qd_count);
                    reply_len = unat qd_count * sizeof_dns_answer + req_len
                in if reply_len > dns_reply_max_len then (- 1, r3)
                   else (case question_loop netif h req_len sizeof_dns_header
                                 (unat qd_count) r3 of
                           Inl r \<Rightarrow> (- 1, r)
                         | Inr r \<Rightarrow> (int reply_len, r)))"

section \<open>One pass of the receive loop of dns\_server\_task\<close>

datatype send_status = SendOk | SendNoBuffers | SendFailed

datatype loop_ctl = KeepServing | RecreateSocket

text \<open>
  The body of the inner loop for a datagram \<open>rx\<close> that \<open>recvfrom\<close> delivered: the
  datagram handed to \<open>sendto\<close>, if any, and how the loop goes on. \<open>st\<close> is what
  \<open>sendto\<close> would report.
\<close>

definition serve_datagram ::
  "(string \<Rightarrow> 32 word) \<Rightarrow> dns_entry_pair list \<Rightarrow> byte list \<Rightarrow> byte list \<Rightarrow> send_status
   \<Rightarrow> byte list option \<times> loop_ctl" where
  "serve_datagram netif h rx reply st =
     (case parse_dns_request netif h rx reply DNS_MAX_LEN of
        (reply_len, r) \<Rightarrow>
          if reply_len \<le> 0 then (None, KeepServing)
          else (Some (take (nat reply_len) r),
                case st of SendFailed \<Rightarrow> RecreateSocket | _ \<Rightarrow> KeepServing))"

section \<open>Derived views of the reply buffer\<close>

text \<open>
  The sixteen bytes of one \<open>dns_answer_t\<close> in memory order, which is the order on the
  wire: name pointer, type, class, TTL, address length, address.
\<close>

definition answer_bytes :: "nat \<Rightarrow> 16 word \<Rightarrow> 16 word \<Rightarrow> 32 word \<Rightarrow> byte list" where
  "answer_bytes cur_qd_ptr qd_type qd_class addr =
     [ucast (drop_bit 8 (0xC000 OR of_nat cur_qd_ptr :: 16 word)),
      ucast (0xC000 OR of_nat cur_qd_ptr :: 16 word),
      ucast (drop_bit 8 qd_type), ucast qd_type,
      ucast (drop_bit 8 qd_class), ucast qd_class,
      0, 0, 1, 0x2C,
      0, 4,
      ucast addr, ucast (drop_bit 8 addr), ucast (drop_bit 16 addr), ucast (drop_bit 24 addr)]"

text \<open>Overwriting a block of a buffer.\<close>

definition blit :: "byte list \<Rightarrow> nat \<Rightarrow> byte list \<Rightarrow> byte list" where
  "blit buf off bs = take off buf @ bs @ drop (off + length bs) buf"

text \<open>
  The reply buffer of \<open>dns_server_task\<close> (\<open>DNS_MAX_LEN\<close> bytes) after the \<open>memset\<close> and
  the \<open>memcpy\<close>, and after the two header assignments; the question count the header
  declares.
\<close>

definition copied_request :: "byte list \<Rightarrow> byte list" where
  "copied_request req = req @ replicate (DNS_MAX_LEN - length req) 0"

definition reply_header :: "byte list \<Rightarrow> byte list" where
  "reply_header req =
     (let r1 = copied_request req;
          r2 = store16 r1 2 (load16 r1 2 OR QR_FLAG)
      in store16 r2 6 (htons (ntohs (load16 r2 4))))"

definition qd_count_of :: "byte list \<Rightarrow> 16 word" where
  "qd_count_of req = ntohs (load16 (copied_request req) 4)"

text \<open>A field of the wire read most significant byte first.\<close>

definition be32 :: "byte list \<Rightarrow> 32 word" where
  "be32 bs = foldl (\<lambda>acc b. push_bit 8 acc OR ucast b) 0 bs"

section \<open>Example configurations and datagrams\<close>

text \<open>
  The soft-AP interface at 192.168.4.1 (an \<open>esp_ip4_addr_t\<close> holds the address in network
  byte order, so the host value has the first octet in its low byte), and the rule set of
  \<open>DNS_SERVER_CONFIG_SINGLE("*", "WIFI_AP_DEF")\<close>.
\<close>

definition example_netif :: "string \<Rightarrow> 32 word" where
  "example_netif k = (if k = ''WIFI_AP_DEF'' then 0x0104A8C0 else IPADDR_ANY)"

definition captive_rules :: "dns_entry_pair list" where
  "captive_rules = [\<lparr>name = ''*'', if_key = Some ''WIFI_AP_DEF'', ip = IPADDR_ANY\<rparr>]"

text \<open>What the reply buffer on the stack of \<open>dns_server_task\<close> may hold before the call.\<close>

definition stack_garbage :: "byte list" where
  "stack_garbage = replicate 256 0xAA"

text \<open>
  A standard query, id \<open>0x1234\<close>, RD set, one question: name \<open>a\<close>, type A, class IN.
\<close>

definition query_a :: "byte list" where
  "query_a = [0x12, 0x34, 0x01, 0x00, 0, 1, 0, 0, 0, 0, 0, 0,
              1, 0x61, 0, 0, 1, 0, 1]"

text \<open>The response to it under the captive rule set, as it goes out on the wire.\<close>

definition response_a :: "byte list" where
  "response_a = [0x12, 0x34, 0x81, 0x00, 0, 1, 0, 1, 0, 0, 0, 0,
                 1, 0x61, 0, 0, 1, 0, 1,
                 0xC0, 0x0C, 0, 1, 0, 1, 0, 0, 1, 0x2C, 0, 4, 192, 168, 4, 1]"

text \<open>The same query with class CH (3) instead of IN.\<close>

definition query_a_chaos :: "byte list" where
  "query_a_chaos = [0x12, 0x34, 0x01, 0x00, 0, 1, 0, 0, 0, 0, 0, 0,
                    1, 0x61, 0, 0, 1, 0, 3]"

text \<open>
  A standard query with two questions, names \<open>a\<close> and \<open>b\<close>, both of type A and class IN,
  and the datagram sent back for it under the captive rule set.
\<close>

definition query_ab :: "byte list" where
  "query_ab = [0x12, 0x34, 0x01, 0x00, 0, 2, 0, 0, 0, 0, 0, 0,
               1, 0x61, 0, 0, 1, 0, 1,
               1, 0x62, 0, 0, 1, 0, 1]"

definition response_ab :: "byte list" where
  "response_ab = [0x12, 0x34, 0x81, 0x00, 0, 2, 0, 2, 0, 0, 0, 0,
                  1, 0x61, 0, 0, 1, 0, 1,
                  1, 0x62, 0, 0, 1, 0, 1,
                  0xC0, 0x0C, 0, 1, 0, 1, 0, 0, 1, 0x2C, 0, 4, 192, 168, 4, 1,
                  0, 0, 0, 0, 0, 0, 0, 0, 0, 0, 0, 0, 0, 0, 0, 0]"

text \<open>
  A standard query with two questions: \<open>a\<close> of type AAAA (28) and class IN, then \<open>b\<close> of
  type A and class CH (3); and the datagram sent back for it under the captive rule set.
\<close>

definition query_aaaa_a :: "byte list" where
  "query_aaaa_a = [0x12, 0x34, 0x01, 0x00, 0, 2, 0, 0, 0, 0, 0, 0,
                   1, 0x61, 0, 0, 0x1C, 0, 1,
                   1, 0x62, 0, 0, 1, 0, 3]"

definition response_aaaa_a :: "byte list" where
  "response_aaaa_a = [0x12, 0x34, 0x81, 0x00, 0, 2, 0, 2, 0, 0, 0, 0,
                      1, 0x61, 0, 0, 0x1C, 0, 1,
                      1, 0x62, 0, 0, 1, 0, 3,
                      0, 0, 0, 0, 0, 0, 0, 0, 0, 0, 0, 0, 0, 0, 0, 0,
                      0, 0, 0, 0, 0, 0, 0, 0, 0, 0, 0, 0, 0, 0, 0, 0]"

text \<open>
  The OPCODE a header declares: bits 3 to 6 of the first flags byte of the wire. The
  query below is \<open>query_a\<close> with OPCODE 2 (server status request) and RD clear.
\<close>

definition declared_opcode :: "byte list \<Rightarrow> byte" where
  "declared_opcode req = drop_bit 3 (req ! 2) AND 0x0F"

definition query_status :: "byte list" where
  "query_status = [0x12, 0x34, 0x10, 0x00, 0, 1, 0, 0, 0, 0, 0, 0,
                   1, 0x61, 0, 0, 1, 0, 1]"

definition response_status :: "byte list" where
  "response_status = [0x12, 0x34, 0x90, 0x00, 0, 1, 0, 1, 0, 0, 0, 0,
                      1, 0x61, 0, 0, 1, 0, 1,
                      0xC0, 0x0C, 0, 1, 0, 1, 0, 0, 1, 0x2C, 0, 4, 192, 168, 4, 1]"

text \<open>
  A standard query declaring two questions. The first is for \<open>a\<close>; the second starts at
  offset 19 with a length byte of 128, so its name alone needs 129 bytes of name buffer.
\<close>

definition query_long_second :: "byte list" where
  "query_long_second = [0x12, 0x34, 0x01, 0x00, 0, 2, 0, 0, 0, 0, 0, 0,
                        1, 0x61, 0, 0, 1, 0, 1,
                        0x80, 0x78, 0x78, 0x78]"

definition response_long_second :: "byte list" where
  "response_long_second = [0x12, 0x34, 0x81, 0x00, 0, 2, 0, 2, 0, 0, 0, 0,
                        1, 0x61, 0, 0, 1, 0, 1,
                        0x80, 0x78, 0x78, 0x78,
                        0xC0, 0x0C, 0, 1, 0, 1, 0, 0, 1, 0x2C, 0, 4, 192, 168, 4, 1,
                        0, 0, 0, 0, 0, 0, 0, 0, 0, 0, 0, 0, 0, 0, 0, 0]"

text \<open>
  Three rules: an interface rule for \<open>portal\<close>, a static rule mapping \<open>a\<close> to
  192.168.4.100, and the wildcard interface rule. Designated initialisers leave the
  \<open>ip\<close> of the interface rules zero.
\<close>

definition mixed_rules :: "dns_entry_pair list" where
  "mixed_rules =
     [\<lparr>name = ''portal'', if_key = Some ''WIFI_AP_DEF'', ip = IPADDR_ANY\<rparr>,
      \<lparr>name = ''a'', if_key = None, ip = 0x6404A8C0\<rparr>,
      \<lparr>name = ''*'', if_key = Some ''WIFI_AP_DEF'', ip = IPADDR_ANY\<rparr>]"

section \<open>The wire encoding of names\<close>

text \<open>
  The repository decodes names but never encodes one. In the spec's words a name on the
  wire is its labels, each prefixed by its length, terminated by a zero byte;
  \<open>encode_name\<close> writes a list of labels that way, and \<open>dotted\<close> joins the labels with
  dots. \<open>parse_dns_name\<close> is checked against this pair.
\<close>

fun encode_name :: "byte list list \<Rightarrow> byte list" where
  "encode_name [] = [0]"
| "encode_name (l # ls) = of_nat (length l) # l @ encode_name ls"

fun dotted :: "byte list list \<Rightarrow> byte list" where
  "dotted [] = []"
| "dotted [l] = l"
| "dotted (l # l' # ls) = l @ [0x2E] @ dotted (l' # ls)"

text \<open>
  Names: 63 + 63 + 1 bytes of labels; the labels \<open>a\<close>, empty, \<open>b\<close>; one label with a NUL
  byte in it; and \<open>www.example.com\<close>.
\<close>

definition labels_130 :: "byte list list" where
  "labels_130 = [replicate 63 0x61, replicate 63 0x61, [0x61]]"

definition labels_gap :: "byte list list" where
  "labels_gap = [[0x61], [], [0x62]]"

definition labels_nul :: "byte list list" where
  "labels_nul = [[0x61, 0, 0x62]]"

definition labels_www :: "byte list list" where
  "labels_www = [[0x77, 0x77, 0x77], [0x65, 0x78, 0x61, 0x6D, 0x70, 0x6C, 0x65],
                 [0x63, 0x6F, 0x6D]]"

section \<open>The connection orchestrator\<close>

text \<open>
  Modelled from the spec: the Connection Orchestrator. Its implementation (the Wi-Fi
  manager behind \<open>Wifi.h\<close>) is not among the sources, so states, events and transitions
  are those of the spec's transition table. \<open>transition\<close> holds the rows triggered by an
  event, \<open>retry_check\<close> the two guarded rows that leave \<open>Disconnected n\<close>; a row the
  table does not list leaves the state as it is. \<open>orchestrator_step\<close> handles one event and
  settles the retry check at once, appending the side effects of the rows taken.
\<close>

datatype conn_state =
  Booting | Connecting nat | Connected | Disconnected nat | ApFallback | ApOnly

datatype event =
  CredentialsFound | NoCredentials | ConnectSucceeded | ConnectFailed | LinkLost
  | NewCredentials

datatype effect =
  IssueStaConnect | StartAp | StartDnsResponder | ExposeCaptiveRoutes | ResetCounter
  | NotifyCollaborators | PersistCredentials | StopDnsResponder | TearDownCaptiveRoutes

fun transition :: "conn_state \<Rightarrow> event \<Rightarrow> conn_state \<times> effect list" where
  "transition Booting CredentialsFound = (Connecting 0, [IssueStaConnect])"
| "transition Booting NoCredentials = (ApOnly, [StartAp])"
| "transition (Connecting n) ConnectSucceeded = (Connected, [ResetCounter, NotifyCollaborators])"
| "transition (Connecting n) ConnectFailed = (Disconnected (n + 1), [])"
| "transition Connected LinkLost = (Disconnected 1, [])"
| "transition ApFallback NewCredentials =
     (Connecting 0, [PersistCredentials, StopDnsResponder, TearDownCaptiveRoutes, IssueStaConnect])"
| "transition ApOnly NewCredentials =
     (Connecting 0, [PersistCredentials, StopDnsResponder, TearDownCaptiveRoutes, IssueStaConnect])"
| "transition s e = (s, [])"

fun retry_check :: "nat \<Rightarrow> conn_state \<Rightarrow> conn_state \<times> effect list" where
  "retry_check max_retry (Disconnected n) =
     (if n < max_retry then (Connecting n, [IssueStaConnect])
      else (ApFallback, [StartAp, StartDnsResponder, ExposeCaptiveRoutes]))"
| "retry_check max_retry s = (s, [])"

definition orchestrator_step ::
  "nat \<Rightarrow> conn_state \<times> effect list \<Rightarrow> event \<Rightarrow> conn_state \<times> effect list" where
  "orchestrator_step max_retry sf e =
     (case transition (fst sf) e of
        (s1, fx1) \<Rightarrow>
          (case retry_check max_retry s1 of
             (s2, fx2) \<Rightarrow> (s2, snd sf @ fx1 @ fx2)))"

definition orchestrator_run ::
  "nat \<Rightarrow> conn_state \<times> effect list \<Rightarrow> event list \<Rightarrow> conn_state \<times> effect list" where
  "orchestrator_run max_retry sf es = foldl (orchestrator_step max_retry) sf es"

section \<open>Facts about loads, stores and byte order\<close>

declare parse_dns_name_loop.simps [simp del]

lemma ucast_load16_lo: "(ucast (load16 buf off) :: byte) = buf ! off"
  unfolding load16_def
  by (rule bit_word_eqI) (auto simp: bit_simps dest: bit_imp_le_length)

lemma ucast_load16_hi: "(ucast (drop_bit 8 (load16 buf off)) :: byte) = buf ! (off + 1)"
  unfolding load16_def
  by (rule bit_word_eqI) (auto simp: bit_simps dest: bit_imp_le_length)

lemma htons_ntohs: "htons (ntohs v) = v"
  unfolding htons_def ntohs_def
  by (rule bit_word_eqI) (auto simp: bit_simps)

lemma ucast_htons_lo: "(ucast (htons v) :: byte) = ucast (drop_bit 8 v)"
  unfolding htons_def
  by (rule bit_word_eqI) (auto simp: bit_simps)

lemma ucast_htons_hi: "(ucast (drop_bit 8 (htons v)) :: byte) = ucast v"
  unfolding htons_def
  by (rule bit_word_eqI) (auto simp: bit_simps)

lemma ucast_qr_lo: "(ucast (load16 buf off OR QR_FLAG) :: byte) = buf ! off OR 0x80"
  unfolding load16_def QR_FLAG_def
  by (rule bit_word_eqI) (auto simp: bit_simps)

lemma ucast_qr_hi:
  "(ucast (drop_bit 8 (load16 buf off OR QR_FLAG)) :: byte) = buf ! (off + 1)"
  unfolding load16_def QR_FLAG_def
  by (rule bit_word_eqI) (auto simp: bit_simps dest: bit_imp_le_length)

text \<open>A field read through \<open>ntohs\<close> is the big-endian value of its two bytes.\<close>

lemma ntohs_load16:
  "ntohs (load16 buf off) = push_bit 8 (ucast (buf ! off)) OR ucast (buf ! (off + 1))"
  unfolding load16_def ntohs_def
  by (rule bit_word_eqI) (auto simp: bit_simps dest: bit_imp_le_length)

lemma be16_lo:
  "(ucast (push_bit 8 (ucast (a::byte)) OR ucast (b::byte) :: 16 word) :: byte) = b"
  by (rule bit_word_eqI) (auto simp: bit_simps dest: bit_imp_le_length)

lemma be16_hi:
  "(ucast (drop_bit 8 (push_bit 8 (ucast (a::byte)) OR ucast (b::byte) :: 16 word)) :: byte) = a"
  by (rule bit_word_eqI) (auto simp: bit_simps dest: bit_imp_le_length)

lemma be16_eq_1:
  "(push_bit 8 (ucast (a::byte)) OR ucast (b::byte) = (1::16 word)) \<longleftrightarrow> a = 0 \<and> b = 1"
proof
  assume h: "push_bit 8 (ucast a) OR ucast b = (1::16 word)"
  have "b = ucast (1 :: 16 word)"
    using be16_lo [of a b] unfolding h by simp
  moreover have "a = ucast (drop_bit 8 (1 :: 16 word))"
    using be16_hi [of a b] unfolding h by simp
  ultimately show "a = 0 \<and> b = 1" by simp
next
  assume "a = 0 \<and> b = 1"
  then show "push_bit 8 (ucast a) OR ucast b = (1::16 word)" by simp
qed

lemma qd_type_is_A:
  "ntohs (load16 buf off) = QD_TYPE_A \<longleftrightarrow> buf ! off = 0 \<and> buf ! (off + 1) = 1"
  by (simp add: ntohs_load16 be16_eq_1 QD_TYPE_A_def)

text \<open>
  The mask \<open>0x7800\<close> applied to the flags as loaded by the host selects bits 3 to 6 of
  the second flags byte of the wire (the Z bits and the top bit of RCODE), not the
  OPCODE bits, which are bits 3 to 6 of the first flags byte.
\<close>

lemma le16_and_hi:
  "(ucast (a::byte) OR push_bit 8 (ucast (b::byte)) :: 16 word) AND push_bit 8 (ucast (m::byte))
   = push_bit 8 (ucast (b AND m))"
  by (rule bit_word_eqI) (auto simp: bit_simps dest: bit_imp_le_length)

lemma push8_ucast_eq_0: "(push_bit 8 (ucast (x::byte)) = (0::16 word)) \<longleftrightarrow> x = 0"
proof
  assume h: "push_bit 8 (ucast x) = (0::16 word)"
  have "(ucast (drop_bit 8 (push_bit 8 (ucast x) :: 16 word)) :: byte) = x"
    by (rule bit_word_eqI) (auto simp: bit_simps dest: bit_imp_le_length)
  then show "x = 0" unfolding h by simp
qed simp

lemma opcode_test:
  "(load16 buf off AND OPCODE_MASK = 0) \<longleftrightarrow> (buf ! (off + 1) AND 0x78 = 0)"
  using le16_and_hi [of "buf ! off" "buf ! (off + 1)" "0x78"]
  by (simp add: load16_def OPCODE_MASK_def push8_ucast_eq_0)

section \<open>Frame facts and the name parser\<close>

lemma length_store16 [simp]: "length (store16 buf off v) = length buf"
  by (simp add: store16_def)

lemma length_store32 [simp]: "length (store32 buf off v) = length buf"
  by (simp add: store32_def)

lemma length_build_answer [simp]: "length (build_answer buf a q ty cl ad) = length buf"
  by (simp add: build_answer_def Let_def)

lemma nth_store16_other: "i \<noteq> off \<Longrightarrow> i \<noteq> off + 1 \<Longrightarrow> store16 buf off v ! i = buf ! i"
  by (simp add: store16_def)

lemma nth_store32_other:
  "i < off \<or> off + 4 \<le> i \<Longrightarrow> store32 buf off v ! i = buf ! i"
  by (auto simp add: store32_def)

lemma build_answer_frame:
  "i < a \<or> a + 16 \<le> i \<Longrightarrow> build_answer buf a q ty cl ad ! i = buf ! i"
  by (auto simp add: build_answer_def Let_def nth_store16_other nth_store32_other)

lemma parse_loop_bounds:
  "parse_dns_name_loop buf m label parsed nl = Some (p, e)
   \<Longrightarrow> label + unat (buf ! label) + 2 \<le> e \<and> e + nl \<le> label + m + 1"
proof (induction buf m label parsed nl rule: parse_dns_name_loop.induct)
  case (1 buf m label parsed nl)
  let ?s = "unat (buf ! label)"
  from "1.prems" have ok: "\<not> nl + (?s + 1) > m"
    by (subst (asm) parse_dns_name_loop.simps) (auto simp: Let_def split: if_splits)
  show ?case
  proof (cases "buf ! (label + ?s + 1) \<noteq> 0")
    case True
    have rec: "parse_dns_name_loop buf m (label + ?s + 1)
                 (parsed @ take ?s (drop (label + 1) buf) @ [0x2E]) (nl + (?s + 1)) = Some (p, e)"
      using "1.prems" ok True
      by (subst (asm) parse_dns_name_loop.simps) (simp add: Let_def)
    from "1.IH" [OF refl refl ok refl refl True rec] show ?thesis by simp
  next
    case False
    have "Some (p, e) = Some ((parsed @ take ?s (drop (label + 1) buf) @ [0x2E])
                                 [nl + (?s + 1) - 1 := 0], label + ?s + 1 + 1)"
      using "1.prems" ok False
      by (subst (asm) parse_dns_name_loop.simps) (simp add: Let_def)
    then show ?thesis using ok by simp
  qed
qed

lemma parse_loop_local:
  assumes "parse_dns_name_loop buf m label parsed nl = Some (p, e)"
    and "\<forall>i. label \<le> i \<and> i < e \<longrightarrow> buf' ! i = buf ! i"
    and "length buf' = length buf"
  shows "parse_dns_name_loop buf' m label parsed nl = Some (p, e)"
  using assms
proof (induction buf m label parsed nl rule: parse_dns_name_loop.induct)
  case (1 buf m label parsed nl)
  let ?s = "unat (buf ! label)"
  from "1.prems"(1) have e_ge: "label + ?s + 2 \<le> e" by (auto dest: parse_loop_bounds)
  then have b: "label + 2 \<le> e" by simp
  from "1.prems"(1) have ok: "\<not> nl + (?s + 1) > m"
    by (subst (asm) parse_dns_name_loop.simps) (auto simp: Let_def split: if_splits)
  have hd: "buf' ! label = buf ! label" using "1.prems"(2) b by simp
  have nx: "buf' ! (label + ?s + 1) = buf ! (label + ?s + 1)" using "1.prems"(2) e_ge by simp
  have tk: "take ?s (drop (label + 1) buf') = take ?s (drop (label + 1) buf)"
    using "1.prems"(2,3) e_ge by (intro nth_equalityI) auto
  show ?case
  proof (cases "buf ! (label + ?s + 1) \<noteq> 0")
    case True
    have rec: "parse_dns_name_loop buf m (label + ?s + 1)
                 (parsed @ take ?s (drop (label + 1) buf) @ [0x2E]) (nl + (?s + 1)) = Some (p, e)"
      using "1.prems"(1) ok True
      by (subst (asm) parse_dns_name_loop.simps) (simp add: Let_def)
    have "parse_dns_name_loop buf' m (label + ?s + 1)
                 (parsed @ take ?s (drop (label + 1) buf) @ [0x2E]) (nl + (?s + 1)) = Some (p, e)"
      using "1.IH" [OF refl refl ok refl refl True rec] "1.prems"(2,3) by simp
    then show ?thesis
      using ok True hd nx tk
      by (subst parse_dns_name_loop.simps) (simp add: Let_def)
  next
    case False
    have "Some (p, e) = Some ((parsed @ take ?s (drop (label + 1) buf) @ [0x2E])[nl + (?s + 1) - 1 := 0], label + ?s + 1 + 1)"
      using "1.prems"(1) ok False
      by (subst (asm) parse_dns_name_loop.simps) (simp add: Let_def)
    then show ?thesis
      using ok False hd nx tk
      by (subst parse_dns_name_loop.simps) (simp add: Let_def)
  qed
qed


lemma store16_blit:
  assumes "off + 2 \<le> length buf"
  shows "store16 buf off v = blit buf off [ucast v, ucast (drop_bit 8 v)]"
proof (rule nth_equalityI)
  show "length (store16 buf off v) = length (blit buf off [ucast v, ucast (drop_bit 8 v)])"
    using assms by (simp add: blit_def)
next
  fix i assume "i < length (store16 buf off v)"
  then have i: "i < length buf" by simp
  consider "i < off" | "i = off" | "i = off + 1" | "off + 2 \<le> i" by linarith
  then show "store16 buf off v ! i = blit buf off [ucast v, ucast (drop_bit 8 v)] ! i"
  proof cases
    case 1 then show ?thesis using i by (simp add: store16_def blit_def nth_append)
  next
    case 2 then show ?thesis using i assms by (simp add: store16_def blit_def nth_append)
  next
    case 3 then show ?thesis using i assms by (simp add: store16_def blit_def nth_append)
  next
    case 4 
    then obtain k where k: "i = off + 2 + k" using le_Suc_ex by blast
    show ?thesis using i assms unfolding k by (simp add: store16_def blit_def nth_append)
  qed
qed

lemma store32_blit:
  assumes "off + 4 \<le> length buf"
  shows "store32 buf off v = blit buf off [ucast v, ucast (drop_bit 8 v), ucast (drop_bit 16 v), ucast (drop_bit 24 v)]"
proof (rule nth_equalityI)
  show "length (store32 buf off v) = length (blit buf off [ucast v, ucast (drop_bit 8 v), ucast (drop_bit 16 v), ucast (drop_bit 24 v)])"
    using assms by (simp add: blit_def)
next
  fix i assume "i < length (store32 buf off v)"
  then have i: "i < length buf" by simp
  consider "i < off" | "i = off" | "i = off + 1" | "i = off + 2" | "i = off + 3" | "off + 4 \<le> i" by linarith
  then show "store32 buf off v ! i = blit buf off [ucast v, ucast (drop_bit 8 v), ucast (drop_bit 16 v), ucast (drop_bit 24 v)] ! i"
  proof cases
    case 1 then show ?thesis using i by (simp add: store32_def blit_def nth_append)
  next
    case 2 then show ?thesis using i assms by (simp add: store32_def blit_def nth_append)
  next
    case 3 then show ?thesis using i assms by (simp add: store32_def blit_def nth_append)
  next
    case 4 then show ?thesis using i assms by (simp add: store32_def blit_def nth_append)
  next
    case 5 then show ?thesis using i assms by (simp add: store32_def blit_def nth_append)
  next
    case 6 
    then obtain k where k: "i = off + 4 + k" using le_Suc_ex by blast
    have other: "store32 buf off v ! i = buf ! i"
      using 6 by (simp add: nth_store32_other)
    have "blit buf off [ucast v, ucast (drop_bit 8 v), ucast (drop_bit 16 v), ucast (drop_bit 24 v)] ! i
          = drop (off + 4) buf ! k"
      using assms unfolding k
      by (simp add: blit_def nth_append, intro arg_cong [where f = "(!) buf"], arith)
    also have "\<dots> = buf ! i"
      using i unfolding k by (simp only: nth_drop)
    finally show ?thesis using other by simp
  qed
qed

lemma length_blit: "off + length bs \<le> length buf \<Longrightarrow> length (blit buf off bs) = length buf"
  by (simp add: blit_def)

lemma blit_blit:
  assumes "off + length as + length bs \<le> length buf" and "k = off + length as"
  shows "blit (blit buf off as) k bs = blit buf off (as @ bs)"
  using assms by (simp add: blit_def ac_simps)

lemma ttl_bytes:
  "[ucast (htonl ANS_TTL_SEC), ucast (drop_bit 8 (htonl ANS_TTL_SEC)),
    ucast (drop_bit 16 (htonl ANS_TTL_SEC)), ucast (drop_bit 24 (htonl ANS_TTL_SEC))]
   = [0, 0, 1, 0x2C :: byte]"
  by (simp add: htonl_def ANS_TTL_SEC_def)

lemma addr_len_bytes: "[ucast (htons 4), ucast (drop_bit 8 (htons 4))] = [0, 4 :: byte]"
  by (simp add: htons_def)

lemma build_answer_eq:
  assumes "a + 16 \<le> length buf"
  shows "build_answer buf a q ty cl ad = blit buf a (answer_bytes q ty cl ad)"
proof -
  have "build_answer buf a q ty cl ad =
        blit buf a ([ucast (htons (0xC000 OR of_nat q)), ucast (drop_bit 8 (htons (0xC000 OR of_nat q)))]
          @ [ucast (htons ty), ucast (drop_bit 8 (htons ty))]
          @ [ucast (htons cl), ucast (drop_bit 8 (htons cl))]
          @ [ucast (htonl ANS_TTL_SEC), ucast (drop_bit 8 (htonl ANS_TTL_SEC)),
             ucast (drop_bit 16 (htonl ANS_TTL_SEC)), ucast (drop_bit 24 (htonl ANS_TTL_SEC))]
          @ [ucast (htons 4), ucast (drop_bit 8 (htons 4))]
          @ [ucast ad, ucast (drop_bit 8 ad), ucast (drop_bit 16 ad), ucast (drop_bit 24 ad)])"
    using assms
    by (simp add: build_answer_def Let_def store16_blit store32_blit length_blit blit_blit
        del: append.simps)
  also have "\<dots> = blit buf a (answer_bytes q ty cl ad)"
    unfolding ttl_bytes addr_len_bytes
    by (simp add: answer_bytes_def ucast_htons_lo ucast_htons_hi)
  finally show ?thesis .
qed

lemma length_answer_bytes [simp]: "length (answer_bytes q ty cl ad) = 16"
  by (simp add: answer_bytes_def)

lemma build_answer_idem:
  assumes "a + 16 \<le> length buf"
  shows "build_answer (build_answer buf a q ty cl ad) a q' ty' cl' ad' = build_answer buf a q' ty' cl' ad'"
  using assms by (simp add: build_answer_eq blit_def)


section \<open>The question loop\<close>

lemma nth_blit_lo: "i < off \<Longrightarrow> off \<le> length buf \<Longrightarrow> blit buf off bs ! i = buf ! i"
  by (simp add: blit_def nth_append)


lemma nth_blit_mid:
  "k < length bs \<Longrightarrow> off \<le> length buf \<Longrightarrow> blit buf off bs ! (off + k) = bs ! k"
  by (simp add: blit_def nth_append)

lemma blit_blit_same:
  "off + length bs \<le> length buf \<Longrightarrow> length bs' = length bs
   \<Longrightarrow> blit (blit buf off bs) off bs' = blit buf off bs'"
  by (simp add: blit_def)

lemma parse_name_bounds:
  "parse_dns_name buf q m = Some (p, e) \<Longrightarrow> q + 2 \<le> e \<and> e \<le> q + m + 1"
  using parse_loop_bounds [of buf m q "[]" 0 p e] by (simp add: parse_dns_name_def)

lemma parse_name_local:
  assumes "parse_dns_name buf q m = Some (p, e)"
    and "\<forall>i. q \<le> i \<and> i < e \<longrightarrow> buf' ! i = buf ! i"
    and "length buf' = length buf"
  shows "parse_dns_name buf' q m = Some (p, e)"
  using assms parse_loop_local [of buf m q "[]" 0 p e buf']
  by (simp add: parse_dns_name_def)

lemma load16_cong:
  "buf' ! off = buf ! off \<Longrightarrow> buf' ! (off + 1) = buf ! (off + 1)
   \<Longrightarrow> load16 buf' off = load16 buf off"
  by (simp add: load16_def)

lemma question_loop_bad_name:
  "parse_dns_name buf Q 128 = None \<Longrightarrow> question_loop netif h L Q (Suc n) buf = Inl buf"
  by simp

lemma question_loop_no_answer:
  assumes "parse_dns_name buf Q 128 = Some (nm, e)"
    and "ntohs (load16 buf e) \<noteq> QD_TYPE_A \<or> find_rule netif h h nm = IPADDR_ANY"
  shows "question_loop netif h L Q n buf = Inr buf"
  using assms by (induction n) (auto simp: Let_def)

lemma question_loop_after_answer:
  assumes p0: "parse_dns_name buf0 Q 128 = Some (nm, e)"
    and eL: "e + 2 \<le> L"
    and len: "L + 16 \<le> length buf0"
  shows "\<exists>cl'. question_loop netif h L Q n
                 (blit buf0 L (answer_bytes Q QD_TYPE_A cl (find_rule netif h h nm)))
               = Inr (blit buf0 L (answer_bytes Q QD_TYPE_A cl' (find_rule netif h h nm)))"
proof (induction n arbitrary: cl)
  case 0
  show ?case by auto
next
  case (Suc n)
  let ?ad = "find_rule netif h h nm"
  let ?buf = "blit buf0 L (answer_bytes Q QD_TYPE_A cl ?ad)"
  have lb: "length ?buf = length buf0"
    using len by (simp add: length_blit)
  have agree: "\<forall>i. i < L \<longrightarrow> ?buf ! i = buf0 ! i"
    using len by (simp add: nth_blit_lo)
  have p: "parse_dns_name ?buf Q 128 = Some (nm, e)"
    using p0 agree eL lb by (intro parse_name_local [OF p0]) auto
  have ty: "load16 ?buf e = load16 buf0 e"
    using agree eL by (intro load16_cong) auto
  show ?case
  proof (cases "ntohs (load16 buf0 e) = QD_TYPE_A \<and> ?ad \<noteq> IPADDR_ANY")
    case True
    have "build_answer ?buf L Q QD_TYPE_A (ntohs (load16 ?buf (e + 2))) ?ad
          = blit buf0 L (answer_bytes Q QD_TYPE_A (ntohs (load16 ?buf (e + 2))) ?ad)"
      using len lb by (simp add: build_answer_eq blit_blit_same)
    then have "question_loop netif h L Q (Suc n) ?buf
               = question_loop netif h L Q n
                   (blit buf0 L (answer_bytes Q QD_TYPE_A (ntohs (load16 ?buf (e + 2))) ?ad))"
      using p ty True by (simp add: Let_def)
    then show ?thesis using Suc.IH by simp
  next
    case False
    then have "question_loop netif h L Q (Suc n) ?buf = question_loop netif h L Q n ?buf"
      using p ty by (auto simp: Let_def)
    then show ?thesis using Suc.IH by simp
  qed
qed

lemma question_loop_fixed:
  assumes p0: "parse_dns_name buf0 Q 128 = Some (nm, e)"
    and ty0: "ntohs (load16 buf0 e) = QD_TYPE_A"
    and eL: "e + 4 \<le> L"
    and len: "L + 16 \<le> length buf0"
  shows "question_loop netif h L Q n
           (blit buf0 L (answer_bytes Q QD_TYPE_A (ntohs (load16 buf0 (e + 2)))
                           (find_rule netif h h nm)))
         = Inr (blit buf0 L (answer_bytes Q QD_TYPE_A (ntohs (load16 buf0 (e + 2)))
                           (find_rule netif h h nm)))"
proof (induction n)
  case 0
  show ?case by simp
next
  case (Suc n)
  let ?ad = "find_rule netif h h nm"
  let ?buf = "blit buf0 L (answer_bytes Q QD_TYPE_A (ntohs (load16 buf0 (e + 2))) ?ad)"
  have lb: "length ?buf = length buf0"
    using len by (simp add: length_blit)
  have agree: "\<forall>i. i < L \<longrightarrow> ?buf ! i = buf0 ! i"
    using len by (simp add: nth_blit_lo)
  have p: "parse_dns_name ?buf Q 128 = Some (nm, e)"
    using p0 agree eL lb by (intro parse_name_local [OF p0]) auto
  have ty: "load16 ?buf e = load16 buf0 e"
    using agree eL by (intro load16_cong) auto
  have cl: "load16 ?buf (e + 2) = load16 buf0 (e + 2)"
    using agree eL by (intro load16_cong) auto
  have "build_answer ?buf L Q QD_TYPE_A (ntohs (load16 buf0 (e + 2))) ?ad = ?buf"
    using len lb by (simp add: build_answer_eq blit_blit_same)
  then have "question_loop netif h L Q (Suc n) ?buf = question_loop netif h L Q n ?buf"
    using p ty cl ty0 by (simp add: Let_def)
  then show ?case using Suc.IH by simp
qed

lemma question_loop_exact:
  assumes p0: "parse_dns_name buf0 Q 128 = Some (nm, e)"
    and ty0: "ntohs (load16 buf0 e) = QD_TYPE_A"
    and ad: "find_rule netif h h nm \<noteq> IPADDR_ANY"
    and eL: "e + 4 \<le> L"
    and len: "L + 16 \<le> length buf0"
  shows "question_loop netif h L Q (Suc n) buf0
         = Inr (blit buf0 L (answer_bytes Q QD_TYPE_A (ntohs (load16 buf0 (e + 2)))
                           (find_rule netif h h nm)))"
proof -
  have "question_loop netif h L Q (Suc n) buf0
        = question_loop netif h L Q n
            (build_answer buf0 L Q QD_TYPE_A (ntohs (load16 buf0 (e + 2))) (find_rule netif h h nm))"
    using p0 ty0 ad by (simp add: Let_def)
  then show ?thesis
    using question_loop_fixed [OF p0 ty0 eL len] len by (simp add: build_answer_eq)
qed

lemma question_loop_general:
  assumes p0: "parse_dns_name buf0 Q 128 = Some (nm, e)"
    and len: "n \<noteq> 0 \<longrightarrow> L + 16 \<le> length buf0"
    and big: "Q + 131 \<le> length buf0"
    and pad: "\<forall>i. L \<le> i \<and> Q \<le> i \<and> i < length buf0 \<longrightarrow> buf0 ! i = 0"
  shows "\<exists>r. question_loop netif h L Q n buf0 = Inr r \<and>
           (r = buf0 \<or>
            (n \<noteq> 0 \<and> ntohs (load16 buf0 e) = QD_TYPE_A \<and> find_rule netif h h nm \<noteq> IPADDR_ANY
             \<and> e + 2 \<le> L
             \<and> (\<exists>cl. r = blit buf0 L (answer_bytes Q QD_TYPE_A cl (find_rule netif h h nm)))))"
proof (cases "ntohs (load16 buf0 e) = QD_TYPE_A \<and> find_rule netif h h nm \<noteq> IPADDR_ANY")
  case False
  then show ?thesis using question_loop_no_answer [OF p0, of netif h L n] by auto
next
  case True
  show ?thesis
  proof (cases n)
    case 0
    then show ?thesis by simp
  next
    case (Suc k)
    have b: "Q + 2 \<le> e \<and> e \<le> Q + 128 + 1" using parse_name_bounds [OF p0] .
    have "buf0 ! (e + 1) = 1" using True by (simp add: qd_type_is_A)
    then have eL: "e + 2 \<le> L"
      using pad [rule_format, of "e + 1"] b big by (cases "e + 2 \<le> L") auto
    have l16: "L + 16 \<le> length buf0" using len Suc by simp
    have "question_loop netif h L Q n buf0
          = question_loop netif h L Q k
              (blit buf0 L (answer_bytes Q QD_TYPE_A (ntohs (load16 buf0 (e + 2)))
                 (find_rule netif h h nm)))"
      using p0 True l16 Suc by (simp add: Let_def build_answer_eq)
    then show ?thesis
      using question_loop_after_answer [OF p0 eL l16, of netif h k "ntohs (load16 buf0 (e + 2))"]
        True eL Suc by auto
  qed
qed


section \<open>The reply buffer before the question loop\<close>

lemma length_copied_request:
  "length req \<le> DNS_MAX_LEN \<Longrightarrow> length (copied_request req) = DNS_MAX_LEN"
  by (simp add: copied_request_def)

lemma nth_copied_request_lo: "i < length req \<Longrightarrow> copied_request req ! i = req ! i"
  by (simp add: copied_request_def nth_append)

lemma nth_copied_request_pad:
  "length req \<le> i \<Longrightarrow> i < DNS_MAX_LEN \<Longrightarrow> copied_request req ! i = 0"
  by (simp add: copied_request_def nth_append)

lemma reply_header_eq:
  "reply_header req =
     (copied_request req)[2 := copied_request req ! 2 OR 0x80,
                          6 := copied_request req ! 4, 7 := copied_request req ! 5]"
proof -
  let ?c = "copied_request req"
  let ?r2 = "store16 ?c 2 (load16 ?c 2 OR QR_FLAG)"
  have hi: "ucast (drop_bit 8 (load16 ?c 2 OR QR_FLAG)) = ?c ! 3"
    using ucast_qr_hi [of ?c 2] by simp
  have "?r2 = ?c[2 := ?c ! 2 OR 0x80, 3 := ?c ! 3]"
    unfolding store16_def ucast_qr_lo hi by simp
  also have "\<dots> = ?c[2 := ?c ! 2 OR 0x80]"
  proof -
    have "(2::nat) \<noteq> 3" by simp
    then have "?c[2 := ?c ! 2 OR 0x80, 3 := ?c ! 3] = ?c[3 := ?c ! 3, 2 := ?c ! 2 OR 0x80]"
      by (rule list_update_swap)
    then show ?thesis by simp
  qed
  finally have r2: "?r2 = ?c[2 := ?c ! 2 OR 0x80]" .
  have "load16 ?r2 4 = load16 ?c 4"
    by (intro load16_cong) (simp_all add: nth_store16_other)
  then have "reply_header req = store16 ?r2 6 (load16 ?c 4)"
    by (simp add: reply_header_def Let_def htons_ntohs)
  also have "\<dots> = ?r2[6 := ?c ! 4, 7 := ?c ! 5]"
    using ucast_load16_hi [of ?c 4] unfolding store16_def ucast_load16_lo by simp
  finally show ?thesis using r2 by simp
qed

lemma length_reply_header:
  "length req \<le> DNS_MAX_LEN \<Longrightarrow> length (reply_header req) = DNS_MAX_LEN"
  by (simp add: reply_header_eq length_copied_request)

lemma nth_reply_header_other:
  "i \<noteq> 2 \<Longrightarrow> i \<noteq> 6 \<Longrightarrow> i \<noteq> 7 \<Longrightarrow> reply_header req ! i = copied_request req ! i"
  by (simp add: reply_header_eq)

lemma nth_reply_header_2:
  "length req \<le> DNS_MAX_LEN \<Longrightarrow> reply_header req ! 2 = copied_request req ! 2 OR 0x80"
  by (simp add: reply_header_eq length_copied_request DNS_MAX_LEN_def)

lemma nth_reply_header_6:
  "length req \<le> DNS_MAX_LEN \<Longrightarrow> reply_header req ! 6 = copied_request req ! 4"
  by (simp add: reply_header_eq length_copied_request DNS_MAX_LEN_def)

lemma nth_reply_header_7:
  "length req \<le> DNS_MAX_LEN \<Longrightarrow> reply_header req ! 7 = copied_request req ! 5"
  by (simp add: reply_header_eq length_copied_request DNS_MAX_LEN_def)

lemma parse_dns_request_unfold:
  assumes "length req \<le> DNS_MAX_LEN" and "length dns_reply = DNS_MAX_LEN"
  shows "parse_dns_request netif h req dns_reply DNS_MAX_LEN =
     (if load16 (copied_request req) 2 AND OPCODE_MASK \<noteq> 0 then (0, copied_request req)
      else if unat (qd_count_of req) * sizeof_dns_answer + length req > DNS_MAX_LEN
        then (- 1, reply_header req)
      else (case question_loop netif h (length req) sizeof_dns_header
                   (unat (qd_count_of req)) (reply_header req) of
              Inl r \<Rightarrow> (- 1, r)
            | Inr r \<Rightarrow> (int (unat (qd_count_of req) * sizeof_dns_answer + length req), r)))"
proof -
  let ?c = "copied_request req"
  have c: "req @ drop (length req) (replicate DNS_MAX_LEN 0 @ drop DNS_MAX_LEN dns_reply) = ?c"
    using assms by (simp add: copied_request_def)
  have q: "load16 (store16 ?c 2 (load16 ?c 2 OR QR_FLAG)) 4 = load16 ?c 4"
    by (intro load16_cong) (simp_all add: nth_store16_other)
  show ?thesis
    using assms(1)
    unfolding parse_dns_request_def reply_header_def qd_count_of_def Let_def c q
    by simp
qed


lemma parse_name_agree:
  assumes ag: "\<forall>i. q \<le> i \<longrightarrow> buf' ! i = buf ! i"
    and ln: "length buf' = length buf"
  shows "parse_dns_name buf' q m = parse_dns_name buf q m"
proof (cases "parse_dns_name buf q m")
  case None
  show ?thesis
  proof (cases "parse_dns_name buf' q m")
    case inner: None
    then show ?thesis using None by simp
  next
    case (Some pe)
    obtain p e where pe: "pe = (p, e)" by (cases pe)
    have s: "parse_dns_name buf' q m = Some (p, e)" using Some pe by simp
    have "\<forall>i. q \<le> i \<and> i < e \<longrightarrow> buf ! i = buf' ! i" using ag by simp
    moreover have "length buf = length buf'" using ln by simp
    ultimately have "parse_dns_name buf q m = Some (p, e)"
      by (rule parse_name_local [OF s])
    then show ?thesis using None by simp
  qed
next
  case (Some pe)
  obtain p e where pe: "pe = (p, e)" by (cases pe)
  have s: "parse_dns_name buf q m = Some (p, e)" using Some pe by simp
  have "\<forall>i. q \<le> i \<and> i < e \<longrightarrow> buf' ! i = buf ! i" using ag by simp
  then have "parse_dns_name buf' q m = Some (p, e)"
    using ln by (rule parse_name_local [OF s])
  then show ?thesis using s by simp
qed

lemma parse_reply_header:
  assumes "length req \<le> DNS_MAX_LEN"
  shows "parse_dns_name (reply_header req) 12 128 = parse_dns_name (copied_request req) 12 128"
proof (rule parse_name_agree)
  show "\<forall>i. 12 \<le> i \<longrightarrow> reply_header req ! i = copied_request req ! i"
    by (simp add: nth_reply_header_other)
  show "length (reply_header req) = length (copied_request req)"
    using assms by (simp add: length_reply_header length_copied_request)
qed

lemma load16_reply_header:
  "8 \<le> off \<Longrightarrow> load16 (reply_header req) off = load16 (copied_request req) off"
  by (intro load16_cong) (simp_all add: nth_reply_header_other)

lemma reply_header_pad:
  assumes "length req \<le> DNS_MAX_LEN"
  shows "\<forall>i. length req \<le> i \<and> 12 \<le> i \<and> i < length (reply_header req)
             \<longrightarrow> reply_header req ! i = 0"
proof (intro allI impI)
  fix i assume h: "length req \<le> i \<and> 12 \<le> i \<and> i < length (reply_header req)"
  then have "i < DNS_MAX_LEN" using assms by (simp add: length_reply_header)
  then have "copied_request req ! i = 0" using h by (simp add: nth_copied_request_pad)
  moreover have "reply_header req ! i = copied_request req ! i"
    using h by (simp add: nth_reply_header_other)
  ultimately show "reply_header req ! i = 0" by simp
qed


text \<open>What the question loop leaves in the reply buffer of an accepted request.\<close>

lemma question_loop_reply_header:
  assumes len: "length req \<le> DNS_MAX_LEN"
    and fits: "unat (qd_count_of req) * sizeof_dns_answer + length req \<le> DNS_MAX_LEN"
  shows "(unat (qd_count_of req) \<noteq> 0 \<and> parse_dns_name (copied_request req) 12 128 = None
            \<and> question_loop netif h (length req) 12 (unat (qd_count_of req)) (reply_header req)
                = Inl (reply_header req))
       \<or> ((unat (qd_count_of req) = 0 \<or> parse_dns_name (copied_request req) 12 128 \<noteq> None)
            \<and> question_loop netif h (length req) 12 (unat (qd_count_of req)) (reply_header req)
                = Inr (reply_header req))
       \<or> (\<exists>nm e cl. unat (qd_count_of req) \<noteq> 0
            \<and> parse_dns_name (copied_request req) 12 128 = Some (nm, e)
            \<and> ntohs (load16 (copied_request req) e) = QD_TYPE_A
            \<and> find_rule netif h h nm \<noteq> IPADDR_ANY
            \<and> e + 2 \<le> length req
            \<and> question_loop netif h (length req) 12 (unat (qd_count_of req)) (reply_header req)
                = Inr (blit (reply_header req) (length req)
                         (answer_bytes 12 QD_TYPE_A cl (find_rule netif h h nm))))"
    (is "?bad \<or> ?same \<or> ?ans")
proof (cases "unat (qd_count_of req)")
  case 0
  then have ?same by simp
  then show ?thesis by blast
next
  case (Suc k)
  show ?thesis
  proof (cases "parse_dns_name (copied_request req) 12 128")
    case None
    then have "parse_dns_name (reply_header req) 12 128 = None"
      using len by (simp add: parse_reply_header)
    then have "question_loop netif h (length req) 12 (Suc k) (reply_header req)
               = Inl (reply_header req)"
      by (rule question_loop_bad_name)
    then have ?bad using None Suc by simp
    then show ?thesis by blast
  next
    case (Some pe)
    obtain nm e where pe: "pe = (nm, e)" by (cases pe)
    have pc: "parse_dns_name (copied_request req) 12 128 = Some (nm, e)"
      using Some pe by simp
    have p0: "parse_dns_name (reply_header req) 12 128 = Some (nm, e)"
      using pc len by (simp add: parse_reply_header)
    have e: "14 \<le> e" using parse_name_bounds [OF p0] by simp
    have l16: "unat (qd_count_of req) \<noteq> 0 \<longrightarrow> length req + 16 \<le> length (reply_header req)"
      using fits len Suc by (simp add: length_reply_header sizeof_dns_answer_def)
    have big: "12 + 131 \<le> length (reply_header req)"
      using len by (simp add: length_reply_header DNS_MAX_LEN_def)
    have ty: "load16 (reply_header req) e = load16 (copied_request req) e"
      using e by (simp add: load16_reply_header)
    from question_loop_general [OF p0 l16 big reply_header_pad [OF len], of netif h]
    obtain r where r: "question_loop netif h (length req) 12 (unat (qd_count_of req)) (reply_header req) = Inr r"
      and d: "r = reply_header req \<or>
            (unat (qd_count_of req) \<noteq> 0 \<and> ntohs (load16 (reply_header req) e) = QD_TYPE_A
             \<and> find_rule netif h h nm \<noteq> IPADDR_ANY \<and> e + 2 \<le> length req
             \<and> (\<exists>cl. r = blit (reply_header req) (length req)
                          (answer_bytes 12 QD_TYPE_A cl (find_rule netif h h nm))))"
      by blast
    from d show ?thesis
    proof
      assume "r = reply_header req"
      then have ?same using r pc by simp
      then show ?thesis by blast
    next
      assume a: "unat (qd_count_of req) \<noteq> 0 \<and> ntohs (load16 (reply_header req) e) = QD_TYPE_A
             \<and> find_rule netif h h nm \<noteq> IPADDR_ANY \<and> e + 2 \<le> length req
             \<and> (\<exists>cl. r = blit (reply_header req) (length req)
                          (answer_bytes 12 QD_TYPE_A cl (find_rule netif h h nm)))"
      then obtain cl where cl: "r = blit (reply_header req) (length req)
                          (answer_bytes 12 QD_TYPE_A cl (find_rule netif h h nm))" by blast
      have ?ans
        apply (rule exI [of _ nm], rule exI [of _ e], rule exI [of _ cl])
        using a r pc ty cl by simp
      then show ?thesis by blast
    qed
  qed
qed


section \<open>The results of parse\_dns\_request\<close>

lemma parse_dns_request_cases:
  assumes len: "length req \<le> DNS_MAX_LEN" and len2: "length dns_reply = DNS_MAX_LEN"
    and check: "load16 (copied_request req) 2 AND OPCODE_MASK = 0"
    and res: "parse_dns_request netif h req dns_reply DNS_MAX_LEN = (n, r)"
  shows "(n = - 1 \<and> r = reply_header req
          \<and> (DNS_MAX_LEN < unat (qd_count_of req) * sizeof_dns_answer + length req
              \<or> unat (qd_count_of req) \<noteq> 0 \<and> parse_dns_name (copied_request req) 12 128 = None))
       \<or> (n = int (unat (qd_count_of req) * sizeof_dns_answer + length req)
          \<and> unat (qd_count_of req) * sizeof_dns_answer + length req \<le> DNS_MAX_LEN
          \<and> (unat (qd_count_of req) = 0 \<or> parse_dns_name (copied_request req) 12 128 \<noteq> None)
          \<and> r = reply_header req)
       \<or> (n = int (unat (qd_count_of req) * sizeof_dns_answer + length req)
          \<and> unat (qd_count_of req) * sizeof_dns_answer + length req \<le> DNS_MAX_LEN
          \<and> (\<exists>nm e cl. unat (qd_count_of req) \<noteq> 0
                \<and> parse_dns_name (copied_request req) 12 128 = Some (nm, e)
                \<and> ntohs (load16 (copied_request req) e) = QD_TYPE_A
                \<and> find_rule netif h h nm \<noteq> IPADDR_ANY
                \<and> e + 2 \<le> length req
                \<and> r = blit (reply_header req) (length req)
                         (answer_bytes 12 QD_TYPE_A cl (find_rule netif h h nm))))"
    (is "?err \<or> ?same \<or> ?ans")
proof (cases "DNS_MAX_LEN < unat (qd_count_of req) * sizeof_dns_answer + length req")
  case True
  then have "parse_dns_request netif h req dns_reply DNS_MAX_LEN = (- 1, reply_header req)"
    using check by (simp add: parse_dns_request_unfold [OF len len2])
  then have ?err using res True by simp
  then show ?thesis by blast
next
  case False
  then have fits: "unat (qd_count_of req) * sizeof_dns_answer + length req \<le> DNS_MAX_LEN"
    by simp
  let ?loop = "question_loop netif h (length req) 12 (unat (qd_count_of req)) (reply_header req)"
  have eq: "(n, r) = (case ?loop of Inl b \<Rightarrow> (- 1, b)
             | Inr b \<Rightarrow> (int (unat (qd_count_of req) * sizeof_dns_answer + length req), b))"
    using check False res
    by (simp add: parse_dns_request_unfold [OF len len2] sizeof_dns_header_def)
  let ?B = "unat (qd_count_of req) \<noteq> 0
            \<and> parse_dns_name (copied_request req) 12 128 = None
            \<and> ?loop = Inl (reply_header req)"
  let ?S = "(unat (qd_count_of req) = 0 \<or> parse_dns_name (copied_request req) 12 128 \<noteq> None)
            \<and> ?loop = Inr (reply_header req)"
  let ?A = "\<exists>nm e cl. unat (qd_count_of req) \<noteq> 0
            \<and> parse_dns_name (copied_request req) 12 128 = Some (nm, e)
            \<and> ntohs (load16 (copied_request req) e) = QD_TYPE_A
            \<and> find_rule netif h h nm \<noteq> IPADDR_ANY
            \<and> e + 2 \<le> length req
            \<and> ?loop = Inr (blit (reply_header req) (length req)
                         (answer_bytes 12 QD_TYPE_A cl (find_rule netif h h nm)))"
  have "?B \<or> ?S \<or> ?A"
    by (rule question_loop_reply_header [OF len fits])
  then show ?thesis
  proof (rule disjE)
    assume ?B
    then have ?err using eq by simp
    then show ?thesis by (rule disjI1)
  next
    assume "?S \<or> ?A"
    then show ?thesis
    proof (rule disjE)
      assume ?S
      then have ?same using eq fits by simp
      then show ?thesis by (intro disjI2 disjI1)
    next
      assume ?A
      then obtain nm e cl where a: "unat (qd_count_of req) \<noteq> 0"
        "parse_dns_name (copied_request req) 12 128 = Some (nm, e)"
        "ntohs (load16 (copied_request req) e) = QD_TYPE_A"
        "find_rule netif h h nm \<noteq> IPADDR_ANY" "e + 2 \<le> length req"
        and l: "?loop = Inr (blit (reply_header req) (length req)
                         (answer_bytes 12 QD_TYPE_A cl (find_rule netif h h nm)))"
        by blast
      have "n = int (unat (qd_count_of req) * sizeof_dns_answer + length req)"
        and "r = blit (reply_header req) (length req)
                         (answer_bytes 12 QD_TYPE_A cl (find_rule netif h h nm))"
        using eq l by simp_all
      then have ?ans using fits a by blast
      then show ?thesis by (intro disjI2)
    qed
  qed
qed

text \<open>The header bytes of the buffer that \<open>parse_dns_request\<close> leaves.\<close>

lemma parse_dns_request_low_bytes:
  assumes len: "length req \<le> DNS_MAX_LEN" and len2: "length dns_reply = DNS_MAX_LEN"
    and check: "load16 (copied_request req) 2 AND OPCODE_MASK = 0"
    and res: "parse_dns_request netif h req dns_reply DNS_MAX_LEN = (n, r)"
    and i: "i < length req \<or> i < 16"
  shows "r ! i = reply_header req ! i"
proof -
  have "r = reply_header req \<or>
        (\<exists>nm e cl. parse_dns_name (copied_request req) 12 128 = Some (nm, e)
           \<and> e + 2 \<le> length req
           \<and> r = blit (reply_header req) (length req)
                         (answer_bytes 12 QD_TYPE_A cl (find_rule netif h h nm)))"
    using parse_dns_request_cases [OF len len2 check res] by blast
  then show ?thesis
  proof (rule disjE)
    assume "r = reply_header req"
    then show ?thesis by simp
  next
    assume "\<exists>nm e cl. parse_dns_name (copied_request req) 12 128 = Some (nm, e)
           \<and> e + 2 \<le> length req
           \<and> r = blit (reply_header req) (length req)
                         (answer_bytes 12 QD_TYPE_A cl (find_rule netif h h nm))"
    then obtain nm e cl where p: "parse_dns_name (copied_request req) 12 128 = Some (nm, e)"
      and e: "e + 2 \<le> length req"
      and r: "r = blit (reply_header req) (length req)
                         (answer_bytes 12 QD_TYPE_A cl (find_rule netif h h nm))"
      by blast
    have "14 \<le> e"
      using parse_name_bounds [OF p] by simp
    then have "i < length req" using i e by auto
    then show ?thesis
      using len unfolding r by (simp add: nth_blit_lo length_reply_header)
  qed
qed


lemma length_parse_dns_request:
  assumes len: "length req \<le> DNS_MAX_LEN" and len2: "length dns_reply = DNS_MAX_LEN"
    and check: "load16 (copied_request req) 2 AND OPCODE_MASK = 0"
    and res: "parse_dns_request netif h req dns_reply DNS_MAX_LEN = (n, r)"
  shows "length r = DNS_MAX_LEN"
proof -
  have "r = reply_header req \<or>
        (\<exists>nm cl. n = int (unat (qd_count_of req) * sizeof_dns_answer + length req)
           \<and> unat (qd_count_of req) * sizeof_dns_answer + length req \<le> DNS_MAX_LEN
           \<and> unat (qd_count_of req) \<noteq> 0
           \<and> r = blit (reply_header req) (length req)
                         (answer_bytes 12 QD_TYPE_A cl (find_rule netif h h nm)))"
    using parse_dns_request_cases [OF len len2 check res] by blast
  then show ?thesis
  proof (rule disjE)
    assume "r = reply_header req"
    then show ?thesis using len by (simp add: length_reply_header)
  next
    assume "\<exists>nm cl. n = int (unat (qd_count_of req) * sizeof_dns_answer + length req)
           \<and> unat (qd_count_of req) * sizeof_dns_answer + length req \<le> DNS_MAX_LEN
           \<and> unat (qd_count_of req) \<noteq> 0
           \<and> r = blit (reply_header req) (length req)
                         (answer_bytes 12 QD_TYPE_A cl (find_rule netif h h nm))"
    then obtain nm cl where f: "unat (qd_count_of req) * sizeof_dns_answer + length req \<le> DNS_MAX_LEN"
      and q: "unat (qd_count_of req) \<noteq> 0"
      and r: "r = blit (reply_header req) (length req)
                         (answer_bytes 12 QD_TYPE_A cl (find_rule netif h h nm))"
      by blast
    have "length req + 16 \<le> DNS_MAX_LEN"
      using f q by (cases "unat (qd_count_of req)") (simp_all add: sizeof_dns_answer_def)
    then show ?thesis
      using len unfolding r by (simp add: length_blit length_reply_header)
  qed
qed

text \<open>
  C1. Whenever the header test of \<open>parse_dns_request\<close> lets a datagram through, the reply
  buffer has the QR bit set in its first flags byte (the other flag bits as received), and
  its answer count and question count fields both hold the question count received,
  whatever the rules are; with rules that match no name, nothing else is written, so the
  declared answer count can exceed the number of answer records in the buffer.
\<close>

theorem parse_dns_request_qr_and_answer_count:
  assumes len: "length req \<le> DNS_MAX_LEN" and len2: "length dns_reply = DNS_MAX_LEN"
    and check: "load16 (copied_request req) 2 AND OPCODE_MASK = 0"
    and res: "parse_dns_request netif h req dns_reply DNS_MAX_LEN = (n, r)"
  shows "r ! 2 = copied_request req ! 2 OR 0x80
       \<and> ntohs (load16 r 6) = qd_count_of req
       \<and> ntohs (load16 r 4) = qd_count_of req
       \<and> ((\<forall>nm. find_rule netif h h nm = IPADDR_ANY) \<longrightarrow> r = reply_header req)"
proof -
  note low = parse_dns_request_low_bytes [OF len len2 check res]
  have b2: "r ! 2 = copied_request req ! 2 OR 0x80"
    using low [of 2] len by (simp add: nth_reply_header_2)
  have b4: "r ! 4 = copied_request req ! 4" and b5: "r ! 5 = copied_request req ! 5"
    using low [of 4] low [of 5] by (simp_all add: nth_reply_header_other)
  have b6: "r ! 6 = copied_request req ! 4" and b7: "r ! 7 = copied_request req ! 5"
    using low [of 6] low [of 7] len by (simp_all add: nth_reply_header_6 nth_reply_header_7)
  have an: "ntohs (load16 r 6) = qd_count_of req"
    using b6 b7 by (simp add: ntohs_load16 qd_count_of_def)
  have qd: "ntohs (load16 r 4) = qd_count_of req"
    using b4 b5 by (simp add: ntohs_load16 qd_count_of_def)
  have none: "(\<forall>nm. find_rule netif h h nm = IPADDR_ANY) \<longrightarrow> r = reply_header req"
    using parse_dns_request_cases [OF len len2 check res] by blast
  show ?thesis using b2 an qd none by blast
qed

theorem parse_dns_request_qr_and_answer_count_witness:
  "length query_a \<le> DNS_MAX_LEN \<and> length stack_garbage = DNS_MAX_LEN
   \<and> load16 (copied_request query_a) 2 AND OPCODE_MASK = 0
   \<and> (\<forall>nm. find_rule example_netif [] [] nm = IPADDR_ANY)
   \<and> qd_count_of query_a = 1
   \<and> snd (parse_dns_request example_netif [] query_a stack_garbage DNS_MAX_LEN) ! 2 = 0x81
   \<and> ntohs (load16 (snd (parse_dns_request example_netif [] query_a stack_garbage DNS_MAX_LEN)) 6) = 1
   \<and> snd (parse_dns_request example_netif [] query_a stack_garbage DNS_MAX_LEN)
       = reply_header query_a"
proof -
  have h1: "length query_a \<le> DNS_MAX_LEN"
    by (simp add: query_a_def DNS_MAX_LEN_def)
  have h2: "length stack_garbage = DNS_MAX_LEN"
    by (simp add: stack_garbage_def DNS_MAX_LEN_def)
  have h3: "load16 (copied_request query_a) 2 AND OPCODE_MASK = 0"
    by (simp add: opcode_test copied_request_def query_a_def)
  have h4: "parse_dns_request example_netif [] query_a stack_garbage DNS_MAX_LEN
            = (fst (parse_dns_request example_netif [] query_a stack_garbage DNS_MAX_LEN),
               snd (parse_dns_request example_netif [] query_a stack_garbage DNS_MAX_LEN))"
    by simp
  have q: "qd_count_of query_a = 1"
    by (simp add: qd_count_of_def ntohs_load16 copied_request_def query_a_def)
  have c2: "copied_request query_a ! 2 OR 0x80 = 0x81"
    by (simp add: copied_request_def query_a_def)
  have h5: "\<forall>nm. find_rule example_netif [] [] nm = IPADDR_ANY"
    by simp
  note t = parse_dns_request_qr_and_answer_count [OF h1 h2 h3 h4]
  have r2: "snd (parse_dns_request example_netif [] query_a stack_garbage DNS_MAX_LEN) ! 2 = 0x81"
    using t [THEN conjunct1] c2 by simp
  have r6: "ntohs (load16 (snd (parse_dns_request example_netif [] query_a stack_garbage
                                  DNS_MAX_LEN)) 6) = 1"
    using t [THEN conjunct2, THEN conjunct1] q by simp
  have rh: "snd (parse_dns_request example_netif [] query_a stack_garbage DNS_MAX_LEN)
            = reply_header query_a"
    using t [THEN conjunct2, THEN conjunct2, THEN conjunct2] h5 by blast
  show ?thesis
    using h1 h2 h3 h5 q r2 r6 rh by (intro conjI)
qed





lemma query_a_facts:
  "length query_a \<le> DNS_MAX_LEN"
  "length stack_garbage = DNS_MAX_LEN"
  "load16 (copied_request query_a) 2 AND OPCODE_MASK = 0"
  "qd_count_of query_a = 1"
  "length query_a = 19"
  by (simp_all add: query_a_def stack_garbage_def DNS_MAX_LEN_def opcode_test copied_request_def
        qd_count_of_def ntohs_load16)




text \<open>A datagram is handed to \<open>sendto\<close> only for a positive return value.\<close>

lemma serve_datagram_sent:
  assumes len: "length req \<le> DNS_MAX_LEN" and len2: "length dns_reply = DNS_MAX_LEN"
    and sent: "serve_datagram netif h req dns_reply st = (Some resp, ctl)"
  shows "load16 (copied_request req) 2 AND OPCODE_MASK = 0
       \<and> (\<exists>n r. parse_dns_request netif h req dns_reply DNS_MAX_LEN = (int n, r)
              \<and> 0 < n \<and> resp = take n r)"
proof -
  obtain m r where res: "parse_dns_request netif h req dns_reply DNS_MAX_LEN = (m, r)"
    by (cases "parse_dns_request netif h req dns_reply DNS_MAX_LEN")
  have pos: "0 < m" and resp: "resp = take (nat m) r"
    using sent unfolding serve_datagram_def res by (simp_all split: if_splits)
  have check: "load16 (copied_request req) 2 AND OPCODE_MASK = 0"
  proof (rule ccontr)
    assume "load16 (copied_request req) 2 AND OPCODE_MASK \<noteq> 0"
    then have "parse_dns_request netif h req dns_reply DNS_MAX_LEN = (0, copied_request req)"
      by (simp add: parse_dns_request_unfold [OF len len2])
    then show False using res pos by simp
  qed
  have "parse_dns_request netif h req dns_reply DNS_MAX_LEN = (int (nat m), r)"
    using res pos by simp
  moreover have "0 < nat m" using pos by simp
  ultimately show ?thesis using check resp by blast
qed

lemma be32_ttl: "be32 [0, 0, 1, 0x2C] = ANS_TTL_SEC"
  by (simp add: be32_def ANS_TTL_SEC_def)

lemma ttl_of_answer_bytes: "take 4 (drop 6 (answer_bytes q ty cl ad)) = [0, 0, 1, 0x2C]"
  by (simp add: answer_bytes_def)

lemma blit_field:
  assumes "off + length bs \<le> length buf" and "k + m \<le> length bs" and "off + length bs \<le> n"
  shows "take m (drop (off + k) (take n (blit buf off bs))) = take m (drop k bs)"
proof -
  have l: "length (blit buf off bs) = length buf" using assms(1) by (rule length_blit)
  have "take n (blit buf off bs) = take off buf @ bs @ take (n - (off + length bs)) (drop (off + length bs) buf)"
    using assms by (simp add: blit_def)
  then have "drop (off + k) (take n (blit buf off bs))
        = drop k bs @ take (n - (off + length bs)) (drop (off + length bs) buf)"
    using assms by simp
  then show ?thesis using assms by simp
qed

text \<open>
  C6. Whenever \<open>dns_server_task\<close> sends a response, every byte of the request other than
  the first flags byte (offset 2) and the two answer count bytes (offsets 6 and 7) is at
  the same offset of the response: in particular the transaction id (offsets 0 and 1) and
  the whole question section (offset 12 on). Either no answer record was written, and the
  response is a prefix of the reply buffer as the header assignments left it, or the
  record after the request carries the TTL bytes \<open>00 00 01 2C\<close>, which is 300.
\<close>

theorem response_keeps_id_and_questions:
  assumes len: "length req \<le> DNS_MAX_LEN" and len2: "length dns_reply = DNS_MAX_LEN"
    and sent: "serve_datagram netif h req dns_reply st = (Some resp, ctl)"
  shows "(\<forall>i. i < length req \<and> i \<noteq> 2 \<and> i \<noteq> 6 \<and> i \<noteq> 7 \<longrightarrow> resp ! i = req ! i)
       \<and> length req \<le> length resp
       \<and> (resp = take (length resp) (reply_header req)
          \<or> length req + sizeof_dns_answer \<le> length resp
            \<and> be32 (take 4 (drop (length req + 6) resp)) = ANS_TTL_SEC)"
proof -
  from serve_datagram_sent [OF len len2 sent]
  obtain n r where check: "load16 (copied_request req) 2 AND OPCODE_MASK = 0"
    and res: "parse_dns_request netif h req dns_reply DNS_MAX_LEN = (int n, r)"
    and pos: "0 < n" and resp: "resp = take n r"
    by blast
  let ?q = "unat (qd_count_of req)"
  have lr: "length r = DNS_MAX_LEN"
    by (rule length_parse_dns_request [OF len len2 check res])
  have d: "int n = int (?q * sizeof_dns_answer + length req)
           \<and> ?q * sizeof_dns_answer + length req \<le> DNS_MAX_LEN
           \<and> (r = reply_header req
              \<or> (\<exists>nm cl. ?q \<noteq> 0
                    \<and> r = blit (reply_header req) (length req)
                          (answer_bytes 12 QD_TYPE_A cl (find_rule netif h h nm))))"
    using parse_dns_request_cases [OF len len2 check res] by fastforce
  have n: "n = ?q * sizeof_dns_answer + length req"
    using d [THEN conjunct1] by (simp only: of_nat_eq_iff)
  have nle: "n \<le> DNS_MAX_LEN"
    using d [THEN conjunct2, THEN conjunct1] unfolding n .
  have lresp: "length resp = n" using resp lr nle by simp
  have frame: "\<forall>i. i < length req \<and> i \<noteq> 2 \<and> i \<noteq> 6 \<and> i \<noteq> 7 \<longrightarrow> resp ! i = req ! i"
  proof (intro allI impI)
    fix i assume i: "i < length req \<and> i \<noteq> 2 \<and> i \<noteq> 6 \<and> i \<noteq> 7"
    then have "i < n" using n by simp
    then have "resp ! i = r ! i" using resp by simp
    also have "\<dots> = reply_header req ! i"
      using i by (intro parse_dns_request_low_bytes [OF len len2 check res]) simp
    also have "\<dots> = copied_request req ! i"
      using i by (simp add: nth_reply_header_other)
    also have "\<dots> = req ! i"
      using i by (simp add: nth_copied_request_lo)
    finally show "resp ! i = req ! i" .
  qed
  have ll: "length req \<le> length resp" using lresp n by simp
  have ttl: "resp = take (length resp) (reply_header req)
          \<or> length req + sizeof_dns_answer \<le> length resp
            \<and> be32 (take 4 (drop (length req + 6) resp)) = ANS_TTL_SEC"
  proof (cases "r = reply_header req")
    case True
    then show ?thesis using resp lresp by simp
  next
    case False
    then obtain nm cl where q: "?q \<noteq> 0"
      and r: "r = blit (reply_header req) (length req)
                          (answer_bytes 12 QD_TYPE_A cl (find_rule netif h h nm))"
      using d by blast
    have n16: "length req + 16 \<le> n"
      using q n by (cases ?q) (simp_all add: sizeof_dns_answer_def)
    have "take 4 (drop (length req + 6) resp)
          = take 4 (drop 6 (answer_bytes 12 QD_TYPE_A cl (find_rule netif h h nm)))"
      unfolding resp r using n16 nle len
      by (intro blit_field) (simp_all add: length_reply_header)
    then have "be32 (take 4 (drop (length req + 6) resp)) = ANS_TTL_SEC"
      by (simp only: ttl_of_answer_bytes be32_ttl)
    then show ?thesis using n16 lresp by (simp add: sizeof_dns_answer_def)
  qed
  show ?thesis
    by (insert frame ll ttl, intro conjI, assumption+)
qed

lemma serve_query_a:
  "serve_datagram example_netif captive_rules query_a stack_garbage SendOk
   = (Some response_a, KeepServing)"
  by code_simp

theorem response_keeps_id_and_questions_witness:
  "length query_a \<le> DNS_MAX_LEN \<and> length stack_garbage = DNS_MAX_LEN
   \<and> serve_datagram example_netif captive_rules query_a stack_garbage SendOk
       = (Some response_a, KeepServing)
   \<and> response_a ! 0 = query_a ! 0 \<and> response_a ! 1 = query_a ! 1
   \<and> response_a ! 12 = query_a ! 12 \<and> response_a ! 18 = query_a ! 18
   \<and> length query_a \<le> length response_a
   \<and> be32 (take 4 (drop (length query_a + 6) response_a)) = ANS_TTL_SEC"
proof -
  note t = response_keeps_id_and_questions [OF query_a_facts(1) query_a_facts(2) serve_query_a]
  have fr: "\<forall>i. i < length query_a \<and> i \<noteq> 2 \<and> i \<noteq> 6 \<and> i \<noteq> 7
                \<longrightarrow> response_a ! i = query_a ! i"
    using t by (rule conjunct1)
  have b: "response_a ! 0 = query_a ! 0" "response_a ! 1 = query_a ! 1"
    "response_a ! 12 = query_a ! 12" "response_a ! 18 = query_a ! 18"
    using fr by (simp_all add: query_a_facts(5))
  have l: "length query_a \<le> length response_a"
    using t by blast
  have "response_a \<noteq> take (length response_a) (reply_header query_a)"
    by code_simp
  then have ttl: "be32 (take 4 (drop (length query_a + 6) response_a)) = ANS_TTL_SEC"
    using t by blast
  show ?thesis
    using query_a_facts(1) query_a_facts(2) serve_query_a b l ttl by (intro conjI)
qed


lemma class_of_answer_bytes:
  "answer_bytes q ty (ntohs (load16 buf off)) ad ! 4 = buf ! off"
  "answer_bytes q ty (ntohs (load16 buf off)) ad ! 5 = buf ! (off + 1)"
proof -
  have f: "answer_bytes q ty cl ad ! 4 = ucast (drop_bit 8 cl)"
    "answer_bytes q ty cl ad ! 5 = ucast cl" for cl
    by (simp_all add: answer_bytes_def)
  show "answer_bytes q ty (ntohs (load16 buf off)) ad ! 4 = buf ! off"
    unfolding f ntohs_load16 by (rule be16_hi)
  show "answer_bytes q ty (ntohs (load16 buf off)) ad ! 5 = buf ! (off + 1)"
    unfolding f ntohs_load16 by (rule be16_lo)
qed

text \<open>
  What holds of the class. Take a request that passes the header test and fits the reply
  buffer, with at least one question declared, whose question at the question offset lies
  within the datagram, is of type A and has a name that the rules resolve to an address.
  No hypothesis mentions the class bytes of the question, and for every value they have
  the reply holds an answer record, with exactly those two bytes in its class field. The
  rule loop cannot see the class: \<open>find_rule\<close> is given the decoded name only.
\<close>

theorem answer_echoes_question_class:
  assumes len: "length req \<le> DNS_MAX_LEN" and len2: "length dns_reply = DNS_MAX_LEN"
    and check: "load16 (copied_request req) 2 AND OPCODE_MASK = 0"
    and fits: "unat (qd_count_of req) * sizeof_dns_answer + length req \<le> DNS_MAX_LEN"
    and q: "unat (qd_count_of req) \<noteq> 0"
    and p: "parse_dns_name (copied_request req) 12 128 = Some (nm, e)"
    and whole: "e + 4 \<le> length req"
    and ty: "ntohs (load16 (copied_request req) e) = QD_TYPE_A"
    and ad: "find_rule netif h h nm \<noteq> IPADDR_ANY"
  shows "\<exists>r. parse_dns_request netif h req dns_reply DNS_MAX_LEN
                = (int (unat (qd_count_of req) * sizeof_dns_answer + length req), r)
           \<and> take 16 (drop (length req) r)
               = answer_bytes 12 QD_TYPE_A (ntohs (load16 (copied_request req) (e + 2)))
                   (find_rule netif h h nm)
           \<and> r ! (length req + 4) = req ! (e + 2)
           \<and> r ! (length req + 5) = req ! (e + 3)"
proof -
  let ?cl = "ntohs (load16 (copied_request req) (e + 2))"
  let ?bytes = "answer_bytes 12 QD_TYPE_A ?cl (find_rule netif h h nm)"
  let ?r = "blit (reply_header req) (length req) ?bytes"
  obtain k where k: "unat (qd_count_of req) = Suc k"
    using q by (cases "unat (qd_count_of req)") simp_all
  have e: "14 \<le> e" using parse_name_bounds [OF p] by simp
  have p0: "parse_dns_name (reply_header req) 12 128 = Some (nm, e)"
    using p len by (simp add: parse_reply_header)
  have ty0: "ntohs (load16 (reply_header req) e) = QD_TYPE_A"
    using ty e by (simp add: load16_reply_header)
  have cl0: "load16 (reply_header req) (e + 2) = load16 (copied_request req) (e + 2)"
    using e by (simp add: load16_reply_header)
  have l16: "length req + 16 \<le> length (reply_header req)"
    using fits k len by (simp add: length_reply_header sizeof_dns_answer_def)
  have loop: "question_loop netif h (length req) 12 (Suc k) (reply_header req) = Inr ?r"
    using question_loop_exact [OF p0 ty0 ad whole l16, of k] cl0 by simp
  have res: "parse_dns_request netif h req dns_reply DNS_MAX_LEN
             = (int (unat (qd_count_of req) * sizeof_dns_answer + length req), ?r)"
    using check fits loop k
    by (simp add: parse_dns_request_unfold [OF len len2] sizeof_dns_header_def)
  have slot: "take 16 (drop (length req) ?r) = ?bytes"
    using l16 by (simp add: blit_def)
  have c4: "?r ! (length req + 4) = ?bytes ! 4" and c5: "?r ! (length req + 5) = ?bytes ! 5"
    using l16 by (simp_all add: nth_blit_mid)
  have "?bytes ! 4 = copied_request req ! (e + 2)"
    by (rule class_of_answer_bytes(1))
  also have "\<dots> = req ! (e + 2)"
    using whole by (simp add: nth_copied_request_lo)
  finally have r4: "?r ! (length req + 4) = req ! (e + 2)"
    using c4 by simp
  have e3: "e + 2 + 1 = e + 3" by simp
  have "?bytes ! 5 = copied_request req ! (e + 2 + 1)"
    by (rule class_of_answer_bytes(2))
  also have "\<dots> = copied_request req ! (e + 3)"
    by (simp only: e3)
  also have "\<dots> = req ! (e + 3)"
    using whole by (simp add: nth_copied_request_lo)
  finally have r5: "?r ! (length req + 5) = req ! (e + 3)"
    using c5 by simp
  show ?thesis
    by (rule exI [of _ ?r]) (insert res slot r4 r5, intro conjI, assumption+)
qed

lemma query_a_chaos_facts:
  "length query_a_chaos \<le> DNS_MAX_LEN"
  "load16 (copied_request query_a_chaos) 2 AND OPCODE_MASK = 0"
  "qd_count_of query_a_chaos = 1"
  "length query_a_chaos = 19"
  "ntohs (load16 (copied_request query_a_chaos) 15) = QD_TYPE_A"
  by (simp_all add: query_a_chaos_def DNS_MAX_LEN_def opcode_test copied_request_def
        qd_count_of_def ntohs_load16 QD_TYPE_A_def)

lemma query_a_chaos_name:
  "parse_dns_name (copied_request query_a_chaos) 12 128 = Some ([0x61, 0], 15)"
  by code_simp

lemma captive_rules_resolve: "find_rule example_netif captive_rules captive_rules nm = 0x0104A8C0"
  by (simp add: captive_rules_def example_netif_def strcmp_eq_def)

theorem answer_echoes_question_class_witness:
  "length query_a_chaos \<le> DNS_MAX_LEN \<and> length stack_garbage = DNS_MAX_LEN
   \<and> load16 (copied_request query_a_chaos) 2 AND OPCODE_MASK = 0
   \<and> unat (qd_count_of query_a_chaos) * sizeof_dns_answer + length query_a_chaos \<le> DNS_MAX_LEN
   \<and> unat (qd_count_of query_a_chaos) \<noteq> 0
   \<and> parse_dns_name (copied_request query_a_chaos) 12 128 = Some ([0x61, 0], 15)
   \<and> 15 + 4 \<le> length query_a_chaos
   \<and> ntohs (load16 (copied_request query_a_chaos) 15) = QD_TYPE_A
   \<and> find_rule example_netif captive_rules captive_rules [0x61, 0] \<noteq> IPADDR_ANY
   \<and> fst (parse_dns_request example_netif captive_rules query_a_chaos stack_garbage DNS_MAX_LEN)
       = 35
   \<and> snd (parse_dns_request example_netif captive_rules query_a_chaos stack_garbage DNS_MAX_LEN)
         ! 23 = 0
   \<and> snd (parse_dns_request example_netif captive_rules query_a_chaos stack_garbage DNS_MAX_LEN)
         ! 24 = 3"
proof -
  note f = query_a_chaos_facts
  have fits: "unat (qd_count_of query_a_chaos) * sizeof_dns_answer + length query_a_chaos
              \<le> DNS_MAX_LEN"
    by (simp add: f sizeof_dns_answer_def DNS_MAX_LEN_def)
  have q: "unat (qd_count_of query_a_chaos) \<noteq> 0"
    by (simp add: f)
  have whole: "15 + 4 \<le> length query_a_chaos"
    by (simp add: f)
  have ad: "find_rule example_netif captive_rules captive_rules [0x61, 0] \<noteq> IPADDR_ANY"
    by (simp add: captive_rules_resolve IPADDR_ANY_def)
  have n35: "int (unat (qd_count_of query_a_chaos) * sizeof_dns_answer + length query_a_chaos) = 35"
    by (simp add: f sizeof_dns_answer_def)
  from answer_echoes_question_class
         [OF f(1) query_a_facts(2) f(2) fits q query_a_chaos_name whole f(5) ad]
  obtain r where r: "parse_dns_request example_netif captive_rules query_a_chaos stack_garbage
                       DNS_MAX_LEN = (35, r)"
    and c4: "r ! (length query_a_chaos + 4) = query_a_chaos ! (15 + 2)"
    and c5: "r ! (length query_a_chaos + 5) = query_a_chaos ! (15 + 3)"
    unfolding n35 by blast
  have v4: "r ! 23 = 0" using c4 by (simp add: f(4)) (simp add: query_a_chaos_def)
  have v5: "r ! 24 = 3" using c5 by (simp add: f(4)) (simp add: query_a_chaos_def)
  show ?thesis
    using f(1) query_a_facts(2) f(2) fits q query_a_chaos_name whole f(5) ad r v4 v5
    by simp
qed


section \<open>What holds of the rule loop and of the drop paths\<close>

lemma find_rule_first_match:
  assumes "ip (hd h) \<noteq> IPADDR_ANY"
  shows "find_rule netif h es nm =
     (case find (\<lambda>e. strcmp_eq (name e) (str_bytes ''*'') \<or> strcmp_eq (name e) nm) es of
        None \<Rightarrow> IPADDR_ANY
      | Some e \<Rightarrow> (case if_key e of Some k \<Rightarrow> netif k | None \<Rightarrow> ip e))"
  using assms by (induction es) (simp_all split: option.splits)

lemma serve_datagram_drops:
  assumes len: "length req \<le> DNS_MAX_LEN" and len2: "length dns_reply = DNS_MAX_LEN"
    and bad: "DNS_MAX_LEN < unat (qd_count_of req) * sizeof_dns_answer + length req
              \<or> unat (qd_count_of req) \<noteq> 0
                \<and> parse_dns_name (copied_request req) 12 128 = None"
  shows "serve_datagram netif h req dns_reply st = (None, KeepServing)"
proof -
  obtain n r where res: "parse_dns_request netif h req dns_reply DNS_MAX_LEN = (n, r)"
    by (cases "parse_dns_request netif h req dns_reply DNS_MAX_LEN")
  have "n \<le> 0"
  proof (cases "load16 (copied_request req) 2 AND OPCODE_MASK = 0")
    case False
    then have "n = 0" using res by (simp add: parse_dns_request_unfold [OF len len2])
    then show ?thesis by simp
  next
    case True
    have "n = - 1"
      using parse_dns_request_cases [OF len len2 True res] bad by fastforce
    then show ?thesis by simp
  qed
  then show ?thesis using res by (simp add: serve_datagram_def)
qed

section \<open>Where the responder departs from its description\<close>

text \<open>
  C3. A request with two questions, both of type A and both matched by the wildcard rule.
  The loop body never advances \<open>cur_qd_ptr\<close> or \<open>cur_ans_ptr\<close>: both passes decode the
  name at offset 12 and write the record at the end of the request. The response declares
  two answers and is 58 bytes long, but holds one record, pointing at the first question
  (\<open>C0 0C\<close>), followed by sixteen zero bytes; no record points at offset 19.
\<close>

theorem two_questions_one_answer:
  "serve_datagram example_netif captive_rules query_ab stack_garbage SendOk
   = (Some response_ab, KeepServing)"
  by code_simp

text \<open>
  C4. A datagram whose header declares OPCODE 2 is answered like a standard query. The
  test \<open>header->flags & OPCODE_MASK\<close> reads the flags in host order (see \<open>opcode_test\<close>),
  so it looks at the second flags byte, where this datagram has zero. \<open>QR_FLAG\<close>, defined
  as \<open>1 << 7\<close>, is laid out for the same host-order read, where \<open>OPCODE_MASK\<close> is laid out
  for the wire order: the two constants cannot both be applied to the same value.
\<close>

theorem status_query_is_answered:
  "declared_opcode query_status = 2
   \<and> fst (parse_dns_request example_netif captive_rules query_status stack_garbage DNS_MAX_LEN) = 35
   \<and> serve_datagram example_netif captive_rules query_status stack_garbage SendOk
       = (Some response_status, KeepServing)"
  by code_simp

text \<open>
  C5. In this request the name of the first question decodes, and decoding the name of
  the second one (at offset 19) overflows the name buffer. The loop decodes the first
  name twice and never reaches offset 19, so a 55-byte response is sent.
\<close>

theorem overlong_second_name_is_answered:
  "parse_dns_name (copied_request query_long_second) 12 128 = Some ([0x61, 0], 15)
   \<and> parse_dns_name (copied_request query_long_second) 19 128 = None
   \<and> serve_datagram example_netif captive_rules query_long_second stack_garbage SendOk
       = (Some response_long_second, KeepServing)"
  by code_simp

text \<open>
  C2. With \<open>mixed_rules\<close>, the first rule whose name is \<open>*\<close> or \<open>a\<close> is the static one
  (192.168.4.100). The static branch tests \<open>h->entry->ip.addr\<close>, the address of entry 0,
  which is zero here, so the static rule is passed over: the query for \<open>a\<close> gets the
  address of the wildcard rule (192.168.4.1), and without the wildcard rule no answer
  record at all.
\<close>

theorem static_rule_is_passed_over:
  "find_rule example_netif mixed_rules mixed_rules [0x61, 0] = 0x0104A8C0
   \<and> find_rule example_netif (take 2 mixed_rules) (take 2 mixed_rules) [0x61, 0] = IPADDR_ANY
   \<and> serve_datagram example_netif mixed_rules query_a stack_garbage SendOk
       = (Some response_a, KeepServing)
   \<and> serve_datagram example_netif (take 2 mixed_rules) query_a stack_garbage SendOk
       = (Some (take 19 response_a @ replicate 16 0), KeepServing)"
  by code_simp


text \<open>
  C10. The second question of \<open>query_aaaa_a\<close> (at offset 19, its type at offset 22) is of
  type A, and its name \<open>b\<close> is matched by the wildcard rule, which resolves to
  192.168.4.1. The loop decodes the first question, of type AAAA, twice and never looks at
  the second: the response declares two answers and holds no record, so no answer is
  constructed for a type A question whose name matches a rule, and its class is echoed
  nowhere.
\<close>

theorem type_a_question_without_answer:
  "parse_dns_name (copied_request query_aaaa_a) 19 128 = Some ([0x62, 0], 22)
   \<and> ntohs (load16 (copied_request query_aaaa_a) 22) = QD_TYPE_A
   \<and> find_rule example_netif captive_rules captive_rules [0x62, 0] = 0x0104A8C0
   \<and> serve_datagram example_netif captive_rules query_aaaa_a stack_garbage SendOk
       = (Some response_aaaa_a, KeepServing)"
  by code_simp

section \<open>Encoding and decoding names\<close>

lemma length_encode_name: "length (encode_name ls) = (\<Sum>l\<leftarrow>ls. length l + 1) + 1"
  by (induction ls) simp_all

lemma length_dotted:
  "ls \<noteq> [] \<Longrightarrow> length (dotted ls) + 1 = (\<Sum>l\<leftarrow>ls. length l + 1)"
  by (induction ls rule: dotted.induct) simp_all

lemma unat_label_length: "n \<le> 255 \<Longrightarrow> unat (of_nat n :: byte) = n"
  by (simp add: unat_of_nat)

lemma label_length_nonzero: "0 < n \<Longrightarrow> n \<le> 255 \<Longrightarrow> (of_nat n :: byte) \<noteq> 0"
  using unat_label_length [of n] by auto

lemma parse_loop_encoded:
  assumes "length l0 \<le> 255"
    and "\<forall>l \<in> set ls. l \<noteq> [] \<and> length l \<le> 255"
    and "nl = length parsed"
    and "nl + (\<Sum>l\<leftarrow>l0 # ls. length l + 1) \<le> m"
  shows "parse_dns_name_loop (pre @ encode_name (l0 # ls) @ post) m (length pre) parsed nl
         = Some (parsed @ dotted (l0 # ls) @ [0],
                 length pre + length (encode_name (l0 # ls)))"
  using assms
proof (induction ls arbitrary: l0 pre parsed nl)
  case Nil
  define buf where "buf = pre @ encode_name [l0] @ post"
  have l0: "length l0 \<le> 255" using Nil.prems(1) by simp
  have b0: "buf ! length pre = of_nat (length l0)" by (simp add: buf_def)
  have s: "unat (buf ! length pre) = length l0"
    unfolding b0 using l0 by (rule unat_label_length)
  have tk: "take (length l0) (drop (length pre + 1) buf) = l0" by (simp add: buf_def)
  have nx: "buf ! (length pre + length l0 + 1) = 0"
    by (simp add: buf_def nth_append)
  have ok: "\<not> m < nl + (length l0 + 1)" using Nil.prems(4) by simp
  have up: "(parsed @ l0 @ [0x2E])[nl + (length l0 + 1) - 1 := 0] = parsed @ l0 @ [0 :: byte]"
    using Nil.prems(3) by (simp add: list_update_append)
  have "parse_dns_name_loop buf m (length pre) parsed nl
        = Some (parsed @ l0 @ [0], length pre + length l0 + 1 + 1)"
    using ok nx tk s up
    by (subst parse_dns_name_loop.simps) (simp add: Let_def)
  then show ?case by (simp add: buf_def)
next
  case (Cons l1 ls)
  define buf where "buf = pre @ encode_name (l0 # l1 # ls) @ post"
  let ?pre' = "pre @ of_nat (length l0) # l0"
  have l0: "length l0 \<le> 255" and l1: "0 < length l1" "length l1 \<le> 255"
    using Cons.prems(1,2) by simp_all
  have buf': "buf = ?pre' @ encode_name (l1 # ls) @ post" by (simp add: buf_def)
  have b0: "buf ! length pre = of_nat (length l0)" by (simp add: buf_def)
  have s: "unat (buf ! length pre) = length l0"
    unfolding b0 using l0 by (rule unat_label_length)
  have tk: "take (length l0) (drop (length pre + 1) buf) = l0" by (simp add: buf_def)
  have "buf ! (length pre + length l0 + 1) = of_nat (length l1)"
    by (simp add: buf_def nth_append)
  then have nx: "buf ! (length pre + length l0 + 1) \<noteq> 0"
    using label_length_nonzero [OF l1] by simp
  have ok: "\<not> m < nl + (length l0 + 1)" using Cons.prems(4) by simp
  have lp: "length ?pre' = length pre + length l0 + 1" by simp
  have ih: "parse_dns_name_loop (?pre' @ encode_name (l1 # ls) @ post) m (length ?pre')
              (parsed @ l0 @ [0x2E]) (nl + (length l0 + 1))
            = Some ((parsed @ l0 @ [0x2E]) @ dotted (l1 # ls) @ [0],
                    length ?pre' + length (encode_name (l1 # ls)))"
    using Cons.prems by (intro Cons.IH) simp_all
  have "parse_dns_name_loop buf m (length pre) parsed nl
        = parse_dns_name_loop buf m (length pre + length l0 + 1)
            (parsed @ l0 @ [0x2E]) (nl + (length l0 + 1))"
    using ok nx tk s
    by (subst parse_dns_name_loop.simps) (simp add: Let_def)
  also have "\<dots> = Some ((parsed @ l0 @ [0x2E]) @ dotted (l1 # ls) @ [0],
                    length ?pre' + length (encode_name (l1 # ls)))"
    using ih unfolding buf' lp .
  finally show ?case by (simp add: buf_def)
qed

text \<open>A name that needs more than the name buffer holds is refused, wherever it overflows.\<close>

lemma parse_loop_encoded_overflow:
  assumes "length l0 \<le> 255"
    and "\<forall>l \<in> set ls. l \<noteq> [] \<and> length l \<le> 255"
    and "m < nl + (\<Sum>l\<leftarrow>l0 # ls. length l + 1)"
  shows "parse_dns_name_loop (pre @ encode_name (l0 # ls) @ post) m (length pre) parsed nl
         = None"
  using assms
proof (induction ls arbitrary: l0 pre parsed nl)
  case Nil
  define buf where "buf = pre @ encode_name [l0] @ post"
  have b0: "buf ! length pre = of_nat (length l0)" by (simp add: buf_def)
  have s: "unat (buf ! length pre) = length l0"
    unfolding b0 using Nil.prems(1) by (rule unat_label_length)
  have over: "m < nl + (length l0 + 1)" using Nil.prems(3) by simp
  have "parse_dns_name_loop buf m (length pre) parsed nl = None"
    using over s by (subst parse_dns_name_loop.simps) (simp add: Let_def)
  then show ?case by (simp add: buf_def)
next
  case (Cons l1 ls)
  define buf where "buf = pre @ encode_name (l0 # l1 # ls) @ post"
  let ?pre' = "pre @ of_nat (length l0) # l0"
  have l0: "length l0 \<le> 255" and l1: "0 < length l1" "length l1 \<le> 255"
    using Cons.prems(1,2) by simp_all
  have buf': "buf = ?pre' @ encode_name (l1 # ls) @ post" by (simp add: buf_def)
  have b0: "buf ! length pre = of_nat (length l0)" by (simp add: buf_def)
  have s: "unat (buf ! length pre) = length l0"
    unfolding b0 using l0 by (rule unat_label_length)
  have lp: "length ?pre' = length pre + length l0 + 1" by simp
  have "parse_dns_name_loop buf m (length pre) parsed nl = None"
  proof (cases "m < nl + (length l0 + 1)")
    case True
    then show ?thesis
      using s by (subst parse_dns_name_loop.simps) (simp add: Let_def)
  next
    case False
    have tk: "take (length l0) (drop (length pre + 1) buf) = l0" by (simp add: buf_def)
    have "buf ! (length pre + length l0 + 1) = of_nat (length l1)"
      by (simp add: buf_def nth_append)
    then have nx: "buf ! (length pre + length l0 + 1) \<noteq> 0"
      using label_length_nonzero [OF l1] by simp
    have ih: "parse_dns_name_loop (?pre' @ encode_name (l1 # ls) @ post) m (length ?pre')
                (parsed @ l0 @ [0x2E]) (nl + (length l0 + 1)) = None"
      using Cons.prems by (intro Cons.IH) simp_all
    have "parse_dns_name_loop buf m (length pre) parsed nl
          = parse_dns_name_loop buf m (length pre + length l0 + 1)
              (parsed @ l0 @ [0x2E]) (nl + (length l0 + 1))"
      using False nx tk s
      by (subst parse_dns_name_loop.simps) (simp add: Let_def)
    also have "\<dots> = None"
      using ih unfolding buf' lp .
    finally show ?thesis .
  qed
  then show ?case by (simp add: buf_def)
qed

lemma c_str_terminated: "0 \<notin> set xs \<Longrightarrow> c_str (xs @ [0]) = xs"
  by (induction xs) (simp_all add: c_str_def)

lemma dotted_no_nul: "\<forall>l \<in> set ls. 0 \<notin> set l \<Longrightarrow> 0 \<notin> set (dotted ls)"
  by (induction ls rule: dotted.induct) simp_all

text \<open>
  C7, as amended. Take a dotted name of 1 to 4 labels of at most 63 bytes each, with no
  NUL byte in a label and no empty label after the first. If its dotted form with the
  terminating NUL fits the 128-byte name buffer, \<open>parse_dns_name\<close> applied to the wire
  encoding (anywhere in a buffer) leaves the dotted string, NUL-terminated, in the name
  buffer and returns the offset just after the encoded name; the C string in the name
  buffer is the dotted string. If it does not fit, \<open>parse_dns_name\<close> returns \<open>NULL\<close>.
\<close>

theorem parse_dns_name_roundtrip:
  assumes n: "1 \<le> length labels" "length labels \<le> 4"
    and wf: "\<forall>l \<in> set labels. length l \<le> 63 \<and> 0 \<notin> set l"
    and gap: "\<forall>l \<in> set (tl labels). l \<noteq> []"
  shows "(length (dotted labels) + 1 \<le> 128 \<longrightarrow>
            parse_dns_name (pre @ encode_name labels @ post) (length pre) 128
              = Some (dotted labels @ [0], length pre + length (encode_name labels))
            \<and> c_str (dotted labels @ [0]) = dotted labels)
       \<and> (128 < length (dotted labels) + 1 \<longrightarrow>
            parse_dns_name (pre @ encode_name labels @ post) (length pre) 128 = None)"
proof -
  obtain l0 ls where labels: "labels = l0 # ls"
    using n(1) by (cases labels) simp_all
  have ne: "labels \<noteq> []" using labels by simp
  have a: "length l0 \<le> 255"
    using wf labels by simp
  have b: "\<forall>l \<in> set ls. l \<noteq> [] \<and> length l \<le> 255"
    using wf gap labels by auto
  have sz: "(\<Sum>l\<leftarrow>l0 # ls. length l + 1) = length (dotted labels) + 1"
    using length_dotted [OF ne] labels by simp
  have nul: "c_str (dotted labels @ [0]) = dotted labels"
  proof (rule c_str_terminated)
    show "0 \<notin> set (dotted labels)"
      using wf by (intro dotted_no_nul) simp
  qed
  have fits: "length (dotted labels) + 1 \<le> 128 \<longrightarrow>
            parse_dns_name (pre @ encode_name labels @ post) (length pre) 128
              = Some (dotted labels @ [0], length pre + length (encode_name labels))
            \<and> c_str (dotted labels @ [0]) = dotted labels"
  proof
    assume f: "length (dotted labels) + 1 \<le> 128"
    have c: "0 + (\<Sum>l\<leftarrow>l0 # ls. length l + 1) \<le> 128"
      using f sz by simp
    have "parse_dns_name_loop (pre @ encode_name (l0 # ls) @ post) 128 (length pre) [] 0
           = Some ([] @ dotted (l0 # ls) @ [0], length pre + length (encode_name (l0 # ls)))"
      using a b _ c by (rule parse_loop_encoded) simp
    then have "parse_dns_name (pre @ encode_name labels @ post) (length pre) 128
           = Some (dotted labels @ [0], length pre + length (encode_name labels))"
      by (simp add: parse_dns_name_def labels)
    then show "parse_dns_name (pre @ encode_name labels @ post) (length pre) 128
              = Some (dotted labels @ [0], length pre + length (encode_name labels))
            \<and> c_str (dotted labels @ [0]) = dotted labels"
      using nul by simp
  qed
  have over: "128 < length (dotted labels) + 1 \<longrightarrow>
            parse_dns_name (pre @ encode_name labels @ post) (length pre) 128 = None"
  proof
    assume f: "128 < length (dotted labels) + 1"
    have c: "128 < 0 + (\<Sum>l\<leftarrow>l0 # ls. length l + 1)"
      using f sz by simp
    have "parse_dns_name_loop (pre @ encode_name (l0 # ls) @ post) 128 (length pre) [] 0 = None"
      using a b c by (rule parse_loop_encoded_overflow)
    then show "parse_dns_name (pre @ encode_name labels @ post) (length pre) 128 = None"
      by (simp add: parse_dns_name_def labels)
  qed
  show ?thesis
    by (insert fits over, intro conjI, assumption+)
qed

theorem parse_dns_name_roundtrip_witness:
  "length labels_www = 3
   \<and> parse_dns_name (encode_name labels_www) 0 128 = Some (dotted labels_www @ [0], 17)
   \<and> c_str (dotted labels_www @ [0]) = dotted labels_www
   \<and> dotted labels_www = [0x77, 0x77, 0x77, 0x2E, 0x65, 0x78, 0x61, 0x6D, 0x70, 0x6C, 0x65,
                           0x2E, 0x63, 0x6F, 0x6D]
   \<and> length labels_130 = 3
   \<and> length (dotted labels_130) = 129
   \<and> parse_dns_name ([0xAA] @ encode_name labels_130 @ [0xAA]) 1 128 = None"
proof -
  have n: "1 \<le> length labels_www" "length labels_www \<le> 4"
    by (simp_all add: labels_www_def)
  have wf: "\<forall>l \<in> set labels_www. length l \<le> 63 \<and> 0 \<notin> set l"
    by (simp add: labels_www_def)
  have gap: "\<forall>l \<in> set (tl labels_www). l \<noteq> []"
    by (simp add: labels_www_def)
  have d: "dotted labels_www = [0x77, 0x77, 0x77, 0x2E, 0x65, 0x78, 0x61, 0x6D, 0x70, 0x6C,
                                0x65, 0x2E, 0x63, 0x6F, 0x6D]"
    by (simp add: labels_www_def)
  have fit: "length (dotted labels_www) + 1 \<le> 128"
    by (simp add: d)
  have e: "length (encode_name labels_www) = 17"
    by (simp add: labels_www_def)
  have l: "length labels_www = 3"
    by (simp add: labels_www_def)
  have www: "parse_dns_name (encode_name labels_www) 0 128 = Some (dotted labels_www @ [0], 17)
             \<and> c_str (dotted labels_www @ [0]) = dotted labels_www"
    using parse_dns_name_roundtrip [OF n wf gap, of "[]" "[]", THEN conjunct1] fit e by simp
  have n': "1 \<le> length labels_130" "length labels_130 \<le> 4"
    by (simp_all add: labels_130_def)
  have wf': "\<forall>l \<in> set labels_130. length l \<le> 63 \<and> 0 \<notin> set l"
    by (simp add: labels_130_def)
  have gap': "\<forall>l \<in> set (tl labels_130). l \<noteq> []"
    by (simp add: labels_130_def)
  have d': "length (dotted labels_130) = 129"
    by (simp add: labels_130_def)
  have long: "parse_dns_name ([0xAA] @ encode_name labels_130 @ [0xAA]) 1 128 = None"
    using parse_dns_name_roundtrip [OF n' wf' gap', of "[0xAA]" "[0xAA]", THEN conjunct2] d'
    by simp
  have l': "length labels_130 = 3"
    by (simp add: labels_130_def)
  show ?thesis
    using l www d l' d' long by (intro conjI) simp_all
qed

text \<open>
  C7, as stated, fails on three counts, each within its bounds of 1 to 4 labels of at
  most 63 bytes. Labels of 63, 63 and 1 bytes need 130 bytes of name buffer, and
  \<open>parse_dns_name\<close> returns \<open>NULL\<close>. The labels \<open>a\<close>, empty, \<open>b\<close> (the dotted string
  \<open>a..b\<close>) encode the empty label as the terminator, and decoding gives \<open>a\<close>. A label
  that holds a NUL byte ends the C string in the name buffer early.
\<close>

theorem parse_dns_name_roundtrip_counterexample:
  "length labels_130 = 3 \<and> map length labels_130 = [63, 63, 1]
   \<and> parse_dns_name (encode_name labels_130) 0 128 = None
   \<and> length labels_gap = 3 \<and> map length labels_gap = [1, 0, 1]
   \<and> dotted labels_gap = [0x61, 0x2E, 0x2E, 0x62]
   \<and> parse_dns_name (encode_name labels_gap) 0 128 = Some ([0x61, 0], 3)
   \<and> length labels_nul = 1 \<and> map length labels_nul = [3]
   \<and> dotted labels_nul = [0x61, 0, 0x62]
   \<and> parse_dns_name (encode_name labels_nul) 0 128 = Some ([0x61, 0, 0x62, 0], 5)
   \<and> c_str [0x61, 0, 0x62, 0] = [0x61]"
  by code_simp

section \<open>Retries and fallback of the orchestrator\<close>

lemma run_Nil [simp]: "orchestrator_run N sf [] = sf"
  by (simp add: orchestrator_run_def)

lemma run_Cons [simp]:
  "orchestrator_run N sf (e # es) = orchestrator_run N (orchestrator_step N sf e) es"
  by (simp add: orchestrator_run_def)

lemma run_in_fallback:
  "orchestrator_run N (ApFallback, fx) (replicate k ConnectFailed) = (ApFallback, fx)"
  by (induction k) (simp_all add: orchestrator_step_def)

lemma run_failures:
  assumes "n < N"
  shows "fst (orchestrator_run N (Connecting n, fx) (replicate k ConnectFailed))
           = (if n + k < N then Connecting (n + k) else ApFallback)
         \<and> count_list (snd (orchestrator_run N (Connecting n, fx) (replicate k ConnectFailed)))
             StartAp
           = count_list fx StartAp + (if n + k < N then 0 else 1)"
  using assms
proof (induction k arbitrary: n fx)
  case 0
  then show ?case by simp
next
  case (Suc k)
  show ?case
  proof (cases "n + 1 < N")
    case True
    have "orchestrator_step N (Connecting n, fx) ConnectFailed
          = (Connecting (n + 1), fx @ [IssueStaConnect])"
      using True by (simp add: orchestrator_step_def)
    then show ?thesis using Suc.IH [OF True, of "fx @ [IssueStaConnect]"] by simp
  next
    case False
    have "orchestrator_step N (Connecting n, fx) ConnectFailed
          = (ApFallback, fx @ [StartAp, StartDnsResponder, ExposeCaptiveRoutes])"
      using False by (simp add: orchestrator_step_def)
    then show ?thesis using False Suc.prems by (simp add: run_in_fallback)
  qed
qed

text \<open>
  C8, as amended. With \<open>max_retry = N \<ge> 1\<close>, after credentials were found at boot and
  \<open>k\<close> consecutive \<open>ConnectFailed\<close> events, the orchestrator is in \<open>Connecting k\<close> and
  has not started the access point as long as \<open>k < N\<close>; from the \<open>N\<close>-th failure on it is
  in \<open>ApFallback\<close> and has started the access point exactly once. After a lost link the
  table enters \<open>Disconnected 1\<close>, and the same holds with \<open>k + 1\<close> in place of \<open>k\<close>:
  \<open>ApFallback\<close> is entered, once, by the \<open>(N - 1)\<close>-th \<open>ConnectFailed\<close> event after the
  loss, and by the loss itself when \<open>N = 1\<close>.
\<close>

theorem fallback_after_max_retry:
  assumes "1 \<le> N"
  shows "fst (orchestrator_run N (Booting, []) (CredentialsFound # replicate k ConnectFailed))
           = (if k < N then Connecting k else ApFallback)
       \<and> count_list (snd (orchestrator_run N (Booting, [])
                              (CredentialsFound # replicate k ConnectFailed))) StartAp
           = (if k < N then 0 else 1)
       \<and> fst (orchestrator_run N (Connected, []) (LinkLost # replicate k ConnectFailed))
           = (if k + 1 < N then Connecting (k + 1) else ApFallback)
       \<and> count_list (snd (orchestrator_run N (Connected, [])
                              (LinkLost # replicate k ConnectFailed))) StartAp
           = (if k + 1 < N then 0 else 1)"
proof -
  have n0: "0 < N" using assms by simp
  have boot: "orchestrator_step N (Booting, []) CredentialsFound
              = (Connecting 0, [IssueStaConnect])"
    by (simp add: orchestrator_step_def)
  have a: "fst (orchestrator_run N (Booting, []) (CredentialsFound # replicate k ConnectFailed))
           = (if k < N then Connecting k else ApFallback)
       \<and> count_list (snd (orchestrator_run N (Booting, [])
                              (CredentialsFound # replicate k ConnectFailed))) StartAp
           = (if k < N then 0 else 1)"
    using run_failures [OF n0, of "[IssueStaConnect]" k] boot by simp
  have b: "fst (orchestrator_run N (Connected, []) (LinkLost # replicate k ConnectFailed))
           = (if k + 1 < N then Connecting (k + 1) else ApFallback)
       \<and> count_list (snd (orchestrator_run N (Connected, [])
                              (LinkLost # replicate k ConnectFailed))) StartAp
           = (if k + 1 < N then 0 else 1)"
  proof (cases "1 < N")
    case True
    have "orchestrator_step N (Connected, []) LinkLost = (Connecting 1, [IssueStaConnect])"
      using True by (simp add: orchestrator_step_def)
    then show ?thesis
      using run_failures [OF True, of "[IssueStaConnect]" k] by (simp add: add.commute)
  next
    case False
    have "orchestrator_step N (Connected, []) LinkLost
          = (ApFallback, [StartAp, StartDnsResponder, ExposeCaptiveRoutes])"
      using False by (simp add: orchestrator_step_def)
    then show ?thesis using False by (simp add: run_in_fallback)
  qed
  show ?thesis using a b by simp
qed

theorem fallback_after_max_retry_witness:
  "(1::nat) \<le> 3
   \<and> fst (orchestrator_run 3 (Booting, []) (CredentialsFound # replicate 2 ConnectFailed))
       = Connecting 2
   \<and> fst (orchestrator_run 3 (Booting, []) (CredentialsFound # replicate 3 ConnectFailed))
       = ApFallback
   \<and> count_list (snd (orchestrator_run 3 (Booting, [])
                         (CredentialsFound # replicate 5 ConnectFailed))) StartAp = 1"
proof -
  have h: "(1::nat) \<le> 3" by simp
  show ?thesis
    using fallback_after_max_retry [OF h, of 2] fallback_after_max_retry [OF h, of 3]
      fallback_after_max_retry [OF h, of 5]
    by simp
qed


text \<open>
  C8, as stated, fails for the start in \<open>Disconnected\<close>: with \<open>max_retry = 3\<close>, two
  \<open>ConnectFailed\<close> events after a lost link bring the orchestrator into \<open>ApFallback\<close>, and
  with \<open>max_retry = 1\<close> the lost link does so with no \<open>ConnectFailed\<close> event at all.
\<close>

theorem fallback_after_max_retry_counterexample:
  "fst (orchestrator_run 3 (Connected, []) [LinkLost]) = Connecting 1
   \<and> fst (orchestrator_run 3 (Connected, []) [LinkLost, ConnectFailed, ConnectFailed])
       = ApFallback
   \<and> fst (orchestrator_run 1 (Connected, []) [LinkLost]) = ApFallback"
  by (simp add: orchestrator_step_def)

end
